theory Spec2Isabelle
  imports Complex_Main "HOL-Library.Word" "HOL-Library.AList" "HOL-Library.Multiset"
begin

section \<open>JavaScript values\<close>

text \<open>
  A JavaScript string is a sequence of 16-bit code units; \<open>length\<close>, \<open>slice\<close> and
  the regular expressions of the program all count code units. String literals of the
  source are written with \<open>js\<close>. JavaScript numbers are modelled as real numbers (the
  formulas of the program are read over the reals, without rounding); the one
  non-real value the program can produce, \<open>NaN\<close>, is modelled where it arises.
\<close>

type_synonym jschar = "16 word"
type_synonym jsstring = "jschar list"

definition js :: "string \<Rightarrow> jsstring" where
  "js s = map of_char s"

text \<open>\<open>s.slice(a, b)\<close> for non-negative integers \<open>a\<close>, \<open>b\<close>.\<close>

definition slice :: "'a list \<Rightarrow> nat \<Rightarrow> nat \<Rightarrow> 'a list" where
  "slice s a b = drop a (take b s)"

definition startsWith :: "'a list \<Rightarrow> 'a list \<Rightarrow> bool" where
  "startsWith s p = (take (length p) s = p)"

section \<open>Constants\<close>

definition SITE :: jsstring where
  "SITE = js ''https://www.sodermanaudiovisual.com''"

definition MAX_PAGES :: nat where "MAX_PAGES = 120"
definition CHUNK_SIZE :: nat where "CHUNK_SIZE = 800"
definition MIN_DOC_CHARS :: nat where "MIN_DOC_CHARS = 180"
definition MAX_CONTEXT :: nat where "MAX_CONTEXT = 9000"
definition TOP_K :: nat where "TOP_K = 12"
definition BATCH_EMBED :: nat where "BATCH_EMBED = 96"

section \<open>Utils\<close>

subsection \<open>chunkText\<close>

text \<open>
  \<^verbatim>\<open>function chunkText(s, n=CHUNK_SIZE){ const out=[];
    for(let i=0;i<s.length;i+=n) out.push(s.slice(i,i+n)); return out; }\<close>

  The loop does not advance when \<open>n = 0\<close>, so it is a partial function: \<open>None\<close>
  stands for a loop that never returns. The size \<open>n\<close> is a natural number (the program
  only ever passes \<open>CHUNK_SIZE\<close>).
\<close>

partial_function (option) chunkText_loop ::
  "'a list \<Rightarrow> nat \<Rightarrow> nat \<Rightarrow> 'a list list \<Rightarrow> 'a list list option" where
  "chunkText_loop s n i out =
     (if i < length s then chunkText_loop s n (i + n) (out @ [slice s i (i + n)])
      else Some out)"

definition chunkText :: "'a list \<Rightarrow> nat \<Rightarrow> 'a list list option" where
  "chunkText s n = chunkText_loop s n 0 []"

subsection \<open>tokenize, unique\<close>

text \<open>
  \<^verbatim>\<open>function tokenize(s){ return String(s).toLowerCase()
     .split(/[^a-z0-9<U+00E4><U+00F6><U+00E5><U+00E6><U+00F8>]+/i).filter(w=>w && w.length>1); }\<close>

  \<open>toLowerCase\<close> is written out for the code units whose lower-case form contains a
  character of the tokenizer's alphabet: the ASCII and Latin-1 capitals, U+0130 (which
  becomes \<open>i\<close> followed by U+0307), the Kelvin sign U+212A (\<open>k\<close>) and the Angstrom sign
  U+212B (U+00E5). Every other code unit is kept: its lower-case form lies outside the
  alphabet as it does itself, so it separates tokens either way.
\<close>

definition toLowerCase_unit :: "jschar \<Rightarrow> jsstring" where
  "toLowerCase_unit c =
     (if 0x41 \<le> c \<and> c \<le> 0x5A then [c + 0x20]
      else if 0xC0 \<le> c \<and> c \<le> 0xDE \<and> c \<noteq> 0xD7 then [c + 0x20]
      else if c = 0x130 then [0x69, 0x307]
      else if c = 0x212A then [0x6B]
      else if c = 0x212B then [0xE5]
      else [c])"

definition toLowerCase :: "jsstring \<Rightarrow> jsstring" where
  "toLowerCase s = concat (map toLowerCase_unit s)"

text \<open>
  The character class of the tokenizer under the \<open>i\<close> flag: the ASCII letters and
  digits, the five letters U+00E4, U+00F6, U+00E5, U+00E6, U+00F8 and their capitals.
\<close>

definition isTokenChar :: "jschar \<Rightarrow> bool" where
  "isTokenChar c =
     ((0x61 \<le> c \<and> c \<le> 0x7A) \<or> (0x41 \<le> c \<and> c \<le> 0x5A) \<or> (0x30 \<le> c \<and> c \<le> 0x39)
      \<or> c \<in> set [0xE4, 0xF6, 0xE5, 0xE6, 0xF8] \<or> c \<in> set [0xC4, 0xD6, 0xC5, 0xC6, 0xD8])"

text \<open>
  \<open>split\<close> on runs of characters outside the class: \<open>cur\<close> is the piece being read,
  \<open>insep\<close> tells that the previous character belonged to a separator. A separator at
  either end of the string yields an empty piece there, as in JavaScript.
\<close>

fun split_tok :: "jsstring \<Rightarrow> bool \<Rightarrow> jsstring \<Rightarrow> jsstring list" where
  "split_tok cur insep [] = [cur]"
| "split_tok cur insep (c # cs) =
     (if isTokenChar c then split_tok (cur @ [c]) False cs
      else if insep then split_tok cur True cs
      else cur # split_tok [] True cs)"

definition tokenize :: "jsstring \<Rightarrow> jsstring list" where
  "tokenize s = filter (\<lambda>w. w \<noteq> [] \<and> 1 < length w) (split_tok [] False (toLowerCase s))"

text \<open>
  \<^verbatim>\<open>function unique(a){ return Array.from(new Set(a)); }\<close>
  A \<open>Set\<close> keeps its elements in the order of their first insertion.
\<close>

definition set_add :: "'a \<Rightarrow> 'a list \<Rightarrow> 'a list" where
  "set_add x seen = (if x \<in> set seen then seen else seen @ [x])"

definition unique :: "'a list \<Rightarrow> 'a list" where
  "unique a = fold set_add a []"

subsection \<open>cosine\<close>

text \<open>
  \<^verbatim>\<open>function cosine(a,b){ let dot=0,na=0,nb=0;
     for(let i=0;i<a.length;i++){dot+=a[i]*b[i];na+=a[i]*a[i];nb+=b[i]*b[i];}
     if(!na||!nb) return 0; return dot/(Math.sqrt(na)*Math.sqrt(nb)); }\<close>

  The loop runs over the indices of \<open>a\<close>. Where \<open>b\<close> is shorter, \<open>b[i]\<close> is \<open>undefined\<close>
  and both \<open>dot\<close> and \<open>nb\<close> become \<open>NaN\<close> for good; entries of \<open>b\<close> beyond the length of
  \<open>a\<close> are never read.
\<close>

datatype jsnum = NaN | Num real

fun nadd :: "jsnum \<Rightarrow> jsnum \<Rightarrow> jsnum" where
  "nadd (Num x) (Num y) = Num (x + y)"
| "nadd _ _ = NaN"

fun cosine_loop :: "real list \<Rightarrow> real list \<Rightarrow> jsnum \<Rightarrow> real \<Rightarrow> jsnum \<Rightarrow> jsnum \<times> real \<times> jsnum" where
  "cosine_loop [] b dot na nb = (dot, na, nb)"
| "cosine_loop (x # a) [] dot na nb = cosine_loop a [] NaN (na + x * x) NaN"
| "cosine_loop (x # a) (y # b) dot na nb =
     cosine_loop a b (nadd dot (Num (x * y))) (na + x * x) (nadd nb (Num (y * y)))"

text \<open>\<open>!x\<close> on a number: true for \<open>0\<close> and for \<open>NaN\<close>.\<close>

fun falsy_num :: "jsnum \<Rightarrow> bool" where
  "falsy_num NaN = True"
| "falsy_num (Num x) = (x = 0)"

fun quotient :: "jsnum \<Rightarrow> real \<Rightarrow> jsnum \<Rightarrow> jsnum" where
  "quotient (Num d) na (Num b) = Num (d / (sqrt na * sqrt b))"
| "quotient _ na _ = NaN"

definition cosine :: "real list \<Rightarrow> real list \<Rightarrow> jsnum" where
  "cosine a b =
     (case cosine_loop a b (Num 0) 0 (Num 0) of
        (dot, na, nb) \<Rightarrow> if na = 0 \<or> falsy_num nb then Num 0 else quotient dot na nb)"

text \<open>
  The previous version of the server tests \<^verbatim>\<open>if (na === 0 || nb === 0) return 0;\<close>
  instead, which lets a \<open>NaN\<close> through.
\<close>

definition cosine_prev :: "real list \<Rightarrow> real list \<Rightarrow> jsnum" where
  "cosine_prev a b =
     (case cosine_loop a b (Num 0) 0 (Num 0) of
        (dot, na, nb) \<Rightarrow> if na = 0 \<or> nb = Num 0 then Num 0 else quotient dot na nb)"

subsection \<open>Counting the occurrences of a term\<close>

text \<open>
  \<^verbatim>\<open>const re=new RegExp("\\b"+escWB(t)+"\\b","gi");
  const count=(d.chunk.match(re)||[]).length||1;\<close>

  \<open>escWB\<close> escapes the characters that are special in a regular expression, so that the
  term is matched literally; \<open>countMatches\<close> is the number of matches \<open>match\<close> returns
  for that expression: the scan goes from left to right, a match is a case-insensitive
  occurrence of the term with a word boundary on both sides, and the scan resumes
  behind a match. A word character is one of \<open>[A-Za-z0-9_]\<close>. The terms are never
  empty (the tokenizer drops the tokens shorter than two characters).

  \<open>canon\<close> is the case folding of the \<open>i\<close> flag, written out for Latin-1; above U+00FF
  it is taken as the identity, which compares alike against the characters of a term.
\<close>

definition isWordChar :: "jschar \<Rightarrow> bool" where
  "isWordChar c =
     ((0x61 \<le> c \<and> c \<le> 0x7A) \<or> (0x41 \<le> c \<and> c \<le> 0x5A) \<or> (0x30 \<le> c \<and> c \<le> 0x39)
      \<or> c = 0x5F)"

definition canon :: "jschar \<Rightarrow> jschar" where
  "canon c =
     (if 0x61 \<le> c \<and> c \<le> 0x7A then c - 0x20
      else if 0xE0 \<le> c \<and> c \<le> 0xFE \<and> c \<noteq> 0xF7 then c - 0x20
      else if c = 0xFF then 0x178
      else if c = 0xB5 then 0x39C
      else c)"

definition wordBefore :: "jschar option \<Rightarrow> bool" where
  "wordBefore prev = (case prev of None \<Rightarrow> False | Some c \<Rightarrow> isWordChar c)"

definition wordAt :: "jsstring \<Rightarrow> bool" where
  "wordAt rest = (case rest of [] \<Rightarrow> False | c # _ \<Rightarrow> isWordChar c)"

definition matchesHere :: "jsstring \<Rightarrow> jschar option \<Rightarrow> jsstring \<Rightarrow> bool" where
  "matchesHere term prev rest =
     (term \<noteq> [] \<and> length term \<le> length rest
      \<and> map canon (take (length term) rest) = map canon term
      \<and> wordBefore prev \<noteq> wordAt rest
      \<and> isWordChar (last (take (length term) rest)) \<noteq> wordAt (drop (length term) rest))"

function countMatches :: "jsstring \<Rightarrow> jschar option \<Rightarrow> jsstring \<Rightarrow> nat" where
  "countMatches term prev [] = 0"
| "countMatches term prev (c # cs) =
     (if matchesHere term prev (c # cs)
      then Suc (countMatches term (Some (last (take (length term) (c # cs))))
                  (drop (length term) (c # cs)))
      else countMatches term (Some c) cs)"
  by pat_completeness auto
termination
  by (relation "measure (\<lambda>(term, prev, rest). length rest)")
     (auto simp: matchesHere_def)

definition termCount :: "jsstring \<Rightarrow> jsstring \<Rightarrow> nat" where
  "termCount t chunk = (let n = countMatches t None chunk in if n = 0 then 1 else n)"

section \<open>The outside world\<close>

text \<open>
  The server talks to the web site and to the OpenAI service. One run of the program
  sees one answer to each request; the answers are the fields of \<open>world\<close>.
  \<^item> \<open>sitemap\<close>: the texts captured by \<^verbatim>\<open>/<loc>([^<]+)<\/loc>/gi\<close> in the site map, in
    order; \<open>None\<close> when the request fails or the answer is not \<open>ok\<close>.
  \<^item> \<open>pathname\<close>: \<^verbatim>\<open>new URL(u).pathname\<close>; \<open>None\<close> when the constructor throws.
  \<^item> \<open>fetchPageStrong\<close>: the document extracted from a page, \<open>None\<close> for \<open>null\<close> (the
    function catches every error itself, and returns \<open>null\<close> for a document of fewer
    than \<open>MIN_DOC_CHARS\<close> characters).
  \<^item> \<open>embed_batch\<close>: the vectors \<open>resp.data[i].embedding\<close> for a batch of texts, \<open>None\<close>
    when the request is rejected.
  \<^item> \<open>embed_query\<close>: \<open>emb.data[0].embedding\<close> for a query, or the message of the error
    thrown.
  \<^item> \<open>chat_completion\<close>: \<open>r.choices?.[0]?.message?.content\<close> for a system prompt and a
    user message (\<open>None\<close> when it is missing), or the message of the error thrown.
  \<^item> \<open>String_other\<close>: \<open>String(v)\<close> for a number or an object \<open>v\<close>.
\<close>

datatype jsval = Undefined | Null | Bool bool | Number real | Str jsstring | Obj nat

record world =
  sitemap :: "jsstring list option"
  pathname :: "jsstring \<Rightarrow> jsstring option"
  fetchPageStrong :: "jsstring \<Rightarrow> jsstring option"
  embed_batch :: "jsstring list \<Rightarrow> real list list option"
  embed_query :: "jsval \<Rightarrow> jsstring + real list"
  chat_completion :: "jsstring \<Rightarrow> jsval \<Rightarrow> jsstring + jsstring option"
  String_other :: "jsval \<Rightarrow> jsstring"

section \<open>URL discovery\<close>

text \<open>
  \<^verbatim>\<open>while((m=re.exec(xml))){
    const u=m[1].trim().replace(/\/+$/,"");
    const path=new URL(u).pathname.replace(/^\/+/,"");
    if(path==="fi"||path.startsWith("fi/")||path==="sv"||path.startsWith("sv/")) continue;
    if(u.startsWith(SITE)) set.add(u);
  }\<close>
  An entry that is not a URL makes \<open>new URL\<close> throw; the \<open>catch\<close> around the loop then
  drops the rest of the site map and keeps what the set holds.
\<close>

definition isWhiteSpace :: "jschar \<Rightarrow> bool" where
  "isWhiteSpace c =
     ((0x09 \<le> c \<and> c \<le> 0x0D) \<or> c = 0x20 \<or> c = 0xA0 \<or> c = 0x1680
      \<or> (0x2000 \<le> c \<and> c \<le> 0x200A) \<or> c = 0x2028 \<or> c = 0x2029 \<or> c = 0x202F
      \<or> c = 0x205F \<or> c = 0x3000 \<or> c = 0xFEFF)"

definition trim :: "jsstring \<Rightarrow> jsstring" where
  "trim s = rev (dropWhile isWhiteSpace (rev (dropWhile isWhiteSpace s)))"

definition slash :: jschar where "slash = 0x2F"

definition stripTrailingSlashes :: "jsstring \<Rightarrow> jsstring" where
  "stripTrailingSlashes s = rev (dropWhile (\<lambda>c. c = slash) (rev s))"

definition stripLeadingSlashes :: "jsstring \<Rightarrow> jsstring" where
  "stripLeadingSlashes s = dropWhile (\<lambda>c. c = slash) s"

definition langExcluded :: "jsstring \<Rightarrow> bool" where
  "langExcluded path =
     (path = js ''fi'' \<or> startsWith path (js ''fi/'') \<or> path = js ''sv'' \<or> startsWith path (js ''sv/''))"

text \<open>
  The previous version of the server:
  \<^verbatim>\<open>if (path.startsWith("fi") || path === "fi" || path.startsWith("sv") || path === "sv") continue;\<close>
\<close>

definition langExcluded_prev :: "jsstring \<Rightarrow> bool" where
  "langExcluded_prev path =
     (startsWith path (js ''fi'') \<or> path = js ''fi'' \<or> startsWith path (js ''sv'') \<or> path = js ''sv'')"

fun sitemap_loop ::
  "(jsstring \<Rightarrow> bool) \<Rightarrow> (jsstring \<Rightarrow> jsstring option) \<Rightarrow> jsstring list \<Rightarrow> jsstring list \<Rightarrow> jsstring list" where
  "sitemap_loop excluded pn [] seen = seen"
| "sitemap_loop excluded pn (m # ms) seen =
     (let u = stripTrailingSlashes (trim m) in
      case pn u of
        None \<Rightarrow> seen
      | Some p \<Rightarrow>
          (let path = stripLeadingSlashes p in
           if excluded path then sitemap_loop excluded pn ms seen
           else if startsWith u SITE then sitemap_loop excluded pn ms (set_add u seen)
           else sitemap_loop excluded pn ms seen))"

text \<open>
  \<^verbatim>\<open>["/","/home","/services","/about-us","/contact","/references","/get-a-quote","/consultation"]
    .forEach(p=>{ try{ set.add(new URL(p,SITE).toString().replace(/\/+$/,"")); }catch{} });\<close>
  Each of these paths resolves against \<open>SITE\<close> to \<open>SITE\<close> followed by the path.
\<close>

definition fallbackPaths :: "jsstring list" where
  "fallbackPaths = map js [''/'', ''/home'', ''/services'', ''/about-us'', ''/contact'',
     ''/references'', ''/get-a-quote'', ''/consultation'']"

definition addFallbacks :: "jsstring list \<Rightarrow> jsstring list" where
  "addFallbacks seen = fold (\<lambda>p acc. set_add (stripTrailingSlashes (SITE @ p)) acc) fallbackPaths seen"

definition discover :: "(jsstring \<Rightarrow> bool) \<Rightarrow> world \<Rightarrow> jsstring list" where
  "discover excluded w =
     (let seen = (case sitemap w of None \<Rightarrow> [] | Some ms \<Rightarrow> sitemap_loop excluded (pathname w) ms [])
      in slice (addFallbacks seen) 0 MAX_PAGES)"

definition getSitemapUrls :: "world \<Rightarrow> jsstring list" where
  "getSitemapUrls w = discover langExcluded w"

definition getSitemapUrls_prev :: "world \<Rightarrow> jsstring list" where
  "getSitemapUrls_prev w = discover langExcluded_prev w"

section \<open>The knowledge base\<close>

text \<open>
  \<^verbatim>\<open>let KB = [];                // { id, url, lang:'en', chunk, vec? }
  let VOCAB_IDF = new Map();   // term -> idf
  let CHUNK_TF = new Map();    // id -> Map(term -> tf)\<close>
  A \<open>Map\<close> is an association list in insertion order: \<open>get\<close> is \<open>map_of\<close>, \<open>set\<close> is
  \<open>AList.update\<close> (which overwrites in place or appends), \<open>clear\<close> leaves \<open>[]\<close>.
\<close>

record entry =
  id' :: nat
  url :: jsstring
  lang :: jsstring
  chunk :: jsstring
  vec :: "real list option"

record state =
  KB :: "entry list"
  VOCAB_IDF :: "(jsstring \<times> real) list"
  CHUNK_TF :: "(nat \<times> (jsstring \<times> nat) list) list"

section \<open>Crawl, index, embed\<close>

text \<open>
  \<^verbatim>\<open>for(const c of pieces) KB.push({ id:id++, url, lang:"en", chunk:c });\<close>
\<close>

fun push_pieces :: "jsstring \<Rightarrow> jsstring list \<Rightarrow> nat \<Rightarrow> entry list \<Rightarrow> entry list \<times> nat" where
  "push_pieces u [] idc kb = (kb, idc)"
| "push_pieces u (c # cs) idc kb =
     push_pieces u cs (idc + 1) (kb @ [\<lparr>id' = idc, url = u, lang = js ''en'', chunk = c, vec = None\<rparr>])"

text \<open>
  \<^verbatim>\<open>for(const url of urls){
    const doc=await fetchPageStrong(url);
    if(!doc){ console.log("skip",url); continue; }
    const pieces=chunkText(doc);
    for(const c of pieces) KB.push(...);
  }\<close>
  The function returns the state after the loop together with the states that were
  current while the loop was suspended in an \<open>await\<close>, in order; \<open>None\<close> stands for a
  loop that never returns (\<open>chunkText\<close> not returning). An empty document is falsy and
  skipped like \<open>null\<close>.
\<close>

fun crawl_pages :: "world \<Rightarrow> jsstring list \<Rightarrow> nat \<Rightarrow> state \<Rightarrow> (state \<times> state list) option" where
  "crawl_pages w [] idc s = Some (s, [])"
| "crawl_pages w (u # us) idc s =
     (case fetchPageStrong w u of
        None \<Rightarrow> map_option (\<lambda>(s', tr). (s', s # tr)) (crawl_pages w us idc s)
      | Some doc \<Rightarrow>
          if doc = [] then map_option (\<lambda>(s', tr). (s', s # tr)) (crawl_pages w us idc s)
          else
            (case chunkText doc CHUNK_SIZE of
               None \<Rightarrow> None
             | Some pieces \<Rightarrow>
                 (case push_pieces u pieces idc (KB s) of
                    (kb, idc') \<Rightarrow>
                      map_option (\<lambda>(s', tr). (s', s # tr))
                        (crawl_pages w us idc' (s\<lparr>KB := kb\<rparr>)))))"

text \<open>
  \<^verbatim>\<open>const N=KB.length||1, df=new Map();
  for(const d of KB){
    const terms=unique(tokenize(d.chunk)); const tf=new Map();
    for(const t of terms){ ...; tf.set(t,count); }
    CHUNK_TF.set(d.id,tf);
    for(const t of terms) df.set(t,(df.get(t)||0)+1);
  }
  for(const [t,dfv] of df.entries()){ VOCAB_IDF.set(t, Math.log((N+1)/(dfv+0.5))); }\<close>
\<close>

definition get_or_0 :: "('k \<times> 'v::zero) list \<Rightarrow> 'k \<Rightarrow> 'v" where
  "get_or_0 m k = (case map_of m k of None \<Rightarrow> 0 | Some v \<Rightarrow> v)"

definition term_freqs :: "jsstring \<Rightarrow> jsstring list \<Rightarrow> (jsstring \<times> nat) list" where
  "term_freqs text terms = fold (\<lambda>t tf. AList.update t (termCount t text) tf) terms []"

definition count_docs :: "jsstring list \<Rightarrow> (jsstring \<times> nat) list \<Rightarrow> (jsstring \<times> nat) list" where
  "count_docs terms df = fold (\<lambda>t df. AList.update t (get_or_0 df t + 1) df) terms df"

fun index_loop ::
  "entry list \<Rightarrow> (nat \<times> (jsstring \<times> nat) list) list \<Rightarrow> (jsstring \<times> nat) list
     \<Rightarrow> (nat \<times> (jsstring \<times> nat) list) list \<times> (jsstring \<times> nat) list" where
  "index_loop [] ctf df = (ctf, df)"
| "index_loop (d # ds) ctf df =
     (let terms = unique (tokenize (chunk d));
          tf = term_freqs (chunk d) terms
      in index_loop ds (AList.update (id' d) tf ctf) (count_docs terms df))"

definition idf_of :: "nat \<Rightarrow> nat \<Rightarrow> real" where
  "idf_of N dfv = ln ((real N + 1) / (real dfv + 0.5))"

definition sparse_index :: "state \<Rightarrow> state" where
  "sparse_index s =
     (let N = (if length (KB s) = 0 then 1 else length (KB s)) in
      case index_loop (KB s) (CHUNK_TF s) [] of
        (ctf, df) \<Rightarrow>
          s\<lparr>CHUNK_TF := ctf,
            VOCAB_IDF := fold (\<lambda>(t, dfv) v. AList.update t (idf_of N dfv) v) df (VOCAB_IDF s)\<rparr>)"

text \<open>
  \<^verbatim>\<open>resp.data.forEach((e,i)=>{ KB[start+i].vec=e.embedding; dims.add(e.embedding.length); });\<close>
  An answer with more vectors than chunks are left makes \<open>KB[start+i]\<close> \<open>undefined\<close>, and
  the assignment throws; the flag returned is \<open>False\<close> then.
\<close>

fun assign_vecs :: "real list list \<Rightarrow> nat \<Rightarrow> entry list \<Rightarrow> entry list \<times> bool" where
  "assign_vecs [] i kb = (kb, True)"
| "assign_vecs (e # es) i kb =
     (if i < length kb then assign_vecs es (i + 1) (kb[i := (kb ! i)\<lparr>vec := Some e\<rparr>])
      else (kb, False))"

text \<open>
  \<^verbatim>\<open>const texts=KB.map(d=>d.chunk); let start=0;
  while(start<texts.length){
    const batch=texts.slice(start,start+BATCH_EMBED);
    const resp=await openai.embeddings.create({ model:"text-embedding-3-small", input:batch });
    resp.data.forEach(...);
    start+=BATCH_EMBED;
  }\<close>
  The result is the state at the end, the states current during each \<open>await\<close>, and
  whether the function returned (\<open>True\<close>) or threw (\<open>False\<close>).
\<close>

function embed_loop :: "world \<Rightarrow> jsstring list \<Rightarrow> nat \<Rightarrow> state \<Rightarrow> state \<times> state list \<times> bool" where
  "embed_loop w texts start s =
     (if start < length texts then
        (case embed_batch w (slice texts start (start + BATCH_EMBED)) of
           None \<Rightarrow> (s, [s], False)
         | Some data \<Rightarrow>
             (case assign_vecs data start (KB s) of
                (kb, ok) \<Rightarrow>
                  if ok then
                    (case embed_loop w texts (start + BATCH_EMBED) (s\<lparr>KB := kb\<rparr>) of
                       (s', tr, ok') \<Rightarrow> (s', s # tr, ok'))
                  else (s\<lparr>KB := kb\<rparr>, [s], False)))
      else (s, [], True))"
  by pat_completeness auto
termination
  by (relation "measure (\<lambda>(w, texts, start, s). length texts - start)")
     (auto simp: BATCH_EMBED_def)

definition embedAllChunks :: "world \<Rightarrow> state \<Rightarrow> state \<times> state list \<times> bool" where
  "embedAllChunks w s = embed_loop w (map chunk (KB s)) 0 s"

text \<open>
  \<^verbatim>\<open>async function crawl(){
    KB=[]; VOCAB_IDF.clear(); CHUNK_TF.clear();
    const urls=await getSitemapUrls(); let id=0;
    for(const url of urls){ ... }
    // Sparse DF/TF
    ...
    await embedAllChunks();
  }\<close>
  A run of \<open>crawl\<close> from the state \<open>s0\<close>: the state it leaves (\<open>final\<close>), the states that
  were current while it was suspended in an \<open>await\<close>, in order (\<open>observed\<close>: these
  are the states a request handled in the meantime finds), and whether it returned or
  threw (\<open>completed\<close>).
\<close>

record run =
  final :: state
  observed :: "state list"
  completed :: bool

definition crawl :: "world \<Rightarrow> state \<Rightarrow> run option" where
  "crawl w s0 =
     (let s1 = s0\<lparr>KB := [], VOCAB_IDF := [], CHUNK_TF := []\<rparr>;
          urls = getSitemapUrls w
      in case crawl_pages w urls 0 s1 of
           None \<Rightarrow> None
         | Some (s2, tr2) \<Rightarrow>
             (case embedAllChunks w (sparse_index s2) of
                (s4, tr4, ok) \<Rightarrow>
                  Some \<lparr>final = s4, observed = s1 # tr2 @ tr4, completed = ok\<rparr>))"

section \<open>Retrieval (hybrid)\<close>

text \<open>
  \<^verbatim>\<open>const f=tf.get(t)||0, idf=VOCAB_IDF.get(t)||0; const denom=1+0.25+f;
  sparse += idf*(1.2*f)/denom;\<close>
\<close>

definition contribution :: "real \<Rightarrow> nat \<Rightarrow> real" where
  "contribution idf f = idf * (1.2 * real f) / (1 + 0.25 + real f)"

definition sparse_score :: "state \<Rightarrow> jsstring list \<Rightarrow> entry \<Rightarrow> real" where
  "sparse_score s terms d =
     (case map_of (CHUNK_TF s) (id' d) of
        None \<Rightarrow> 0
      | Some tf \<Rightarrow>
          fold (\<lambda>t sparse. sparse + contribution (get_or_0 (VOCAB_IDF s) t) (get_or_0 tf t)) terms 0)"

text \<open>
  \<^verbatim>\<open>const dense=d.vec?cosine(qv,d.vec):0;
  const score=0.7*dense + 0.3*Math.tanh(sparse);\<close>
\<close>

definition dense_score :: "real list \<Rightarrow> entry \<Rightarrow> jsnum" where
  "dense_score qv d = (case vec d of None \<Rightarrow> Num 0 | Some v \<Rightarrow> cosine qv v)"

fun nscale :: "real \<Rightarrow> jsnum \<Rightarrow> jsnum" where
  "nscale k (Num x) = Num (k * x)"
| "nscale k NaN = NaN"

definition score_of :: "state \<Rightarrow> real list \<Rightarrow> jsstring list \<Rightarrow> entry \<Rightarrow> jsnum" where
  "score_of s qv terms d =
     nadd (nscale 0.7 (dense_score qv d)) (Num (0.3 * tanh (sparse_score s terms d)))"

text \<open>
  \<^verbatim>\<open>for(const d of KB){ ...; if(score>0) scored.push({d,score}); }\<close>
  A \<open>NaN\<close> is not greater than \<open>0\<close>.
\<close>

fun score_loop :: "state \<Rightarrow> real list \<Rightarrow> jsstring list \<Rightarrow> entry list \<Rightarrow> (entry \<times> real) list" where
  "score_loop s qv terms [] = []"
| "score_loop s qv terms (d # ds) =
     (case score_of s qv terms d of
        Num x \<Rightarrow> if 0 < x then (d, x) # score_loop s qv terms ds else score_loop s qv terms ds
      | NaN \<Rightarrow> score_loop s qv terms ds)"

text \<open>
  \<^verbatim>\<open>scored.sort((a,b)=>b.score-a.score);\<close> and \<^verbatim>\<open>scored.slice(0,TOP_K)\<close>.
  \<open>Array.prototype.sort\<close> is stable; so is \<open>sort_key\<close>.
\<close>

definition ranked :: "state \<Rightarrow> real list \<Rightarrow> jsstring list \<Rightarrow> (entry \<times> real) list" where
  "ranked s qv terms = slice (sort_key (\<lambda>e. - snd e) (score_loop s qv terms (KB s))) 0 TOP_K"

text \<open>
  \<^verbatim>\<open>let ctx=""; for(const {d} of scored.slice(0,TOP_K)){
    if(ctx.length+d.chunk.length>MAX_CONTEXT) break;
    ctx += "[Source] "+d.url+"\n"+d.chunk+"\n\n"; }\<close>
\<close>

definition nl :: jschar where "nl = 0x0A"

definition tagged :: "entry \<Rightarrow> jsstring" where
  "tagged d = js ''[Source] '' @ url d @ [nl] @ chunk d @ [nl, nl]"

fun build_ctx :: "jsstring \<Rightarrow> entry list \<Rightarrow> jsstring" where
  "build_ctx ctx [] = ctx"
| "build_ctx ctx (d # ds) =
     (if MAX_CONTEXT < length ctx + length (chunk d) then ctx
      else build_ctx (ctx @ tagged d) ds)"

fun truthy :: "jsval \<Rightarrow> bool" where
  "truthy Undefined = False"
| "truthy Null = False"
| "truthy (Bool b) = b"
| "truthy (Number x) = (x \<noteq> 0)"
| "truthy (Str s) = (s \<noteq> [])"
| "truthy (Obj _) = True"

fun String_js :: "world \<Rightarrow> jsval \<Rightarrow> jsstring" where
  "String_js w (Str s) = s"
| "String_js w Undefined = js ''undefined''"
| "String_js w Null = js ''null''"
| "String_js w (Bool b) = (if b then js ''true'' else js ''false'')"
| "String_js w v = String_other w v"

text \<open>
  \<^verbatim>\<open>async function retrieveContext(query){
    if(!KB.length) return "";
    const qemb=await openai.embeddings.create({ model:"text-embedding-3-small", input:query });
    const qv=qemb.data[0].embedding;
    const terms=unique(tokenize(query)); ...
    return ctx; }\<close>
  The result is the context (\<open>Inr\<close>) or the message of the error thrown (\<open>Inl\<close>),
  with the requests sent to the service.
\<close>

datatype call = EmbedQuery jsval | ChatCompletion jsstring jsval

definition context_of :: "world \<Rightarrow> state \<Rightarrow> real list \<Rightarrow> jsval \<Rightarrow> jsstring" where
  "context_of w s qv query =
     build_ctx [] (map fst (ranked s qv (unique (tokenize (String_js w query)))))"

definition retrieveContext :: "world \<Rightarrow> state \<Rightarrow> jsval \<Rightarrow> (jsstring + jsstring) \<times> call list" where
  "retrieveContext w s query =
     (if length (KB s) = 0 then (Inr [], [])
      else case embed_query w query of
             Inl err \<Rightarrow> (Inl err, [EmbedQuery query])
           | Inr qv \<Rightarrow> (Inr (context_of w s qv query), [EmbedQuery query]))"

section \<open>Chat API\<close>

text \<open>
  \<^verbatim>\<open>app.post("/chat", async (req,res)=>{
    try{
      const msg=req.body?.message||""; const lang=req.body?.lang||"en";
      if(!msg) return res.json({reply:"Please type a message."});
      const ctx=await retrieveContext(msg);
      const langRule = (lang==="fi") ? "Answer in Finnish."
                      : (lang==="sv") ? "Answer in Swedish."
                      : "Answer in English.";
      const sys=[ ..., ctx ? ("Knowledge:\n"+ctx) : "Knowledge: (none yet)" ].join("\n");
      const r=await openai.chat.completions.create({ ...,
        messages:[ {role:"system",content:sys}, {role:"user",content:msg} ] });
      res.json({reply:r.choices?.[0]?.message?.content||"(no reply)"});
    }catch(e){ res.json({reply:"Error "+(e?.message||String(e))}); }
  });\<close>
  The body of a request holds the two fields the handler reads (\<open>Undefined\<close> for a field
  that is absent); a request without a body is \<open>None\<close>. The answer of the handler is its
  reply together with the requests it sent to the service.
\<close>

record body =
  message :: jsval
  lang' :: jsval

record answer =
  reply :: jsstring
  calls :: "call list"

definition or_js :: "jsval \<Rightarrow> jsval \<Rightarrow> jsval" where
  "or_js a b = (if truthy a then a else b)"

definition langRule :: "jsval \<Rightarrow> jsstring" where
  "langRule l =
     (if l = Str (js ''fi'') then js ''Answer in Finnish.''
      else if l = Str (js ''sv'') then js ''Answer in Swedish.''
      else js ''Answer in English.'')"

fun join :: "jsstring \<Rightarrow> jsstring list \<Rightarrow> jsstring" where
  "join sep [] = []"
| "join sep [x] = x"
| "join sep (x # y # ys) = x @ sep @ join sep (y # ys)"

definition system_prompt :: "jsval \<Rightarrow> jsstring \<Rightarrow> jsstring" where
  "system_prompt l ctx = join [nl]
     [js ''You are SODERBOT, assistant for Soderman Audiovisual.'',
      js ''We are a film production company based in Vaasa and Helsinki. Use 'we'/'our'.'',
      js ''When the question is very short (even a single word), infer the most relevant section from the knowledge and explain briefly with context.'',
      langRule l,
      js ''Use only the knowledge provided. If a detail is missing, say so and offer a human handoff.'',
      if ctx \<noteq> [] then js ''Knowledge:'' @ [nl] @ ctx else js ''Knowledge: (none yet)'']"

definition rejection :: jsstring where
  "rejection = js ''Please type a message.''"

text \<open>\<open>req.body?.f\<close>: \<open>undefined\<close> when there is no body.\<close>

definition field :: "(body \<Rightarrow> jsval) \<Rightarrow> body option \<Rightarrow> jsval" where
  "field f req = (case req of None \<Rightarrow> Undefined | Some b \<Rightarrow> f b)"

definition chat :: "world \<Rightarrow> state \<Rightarrow> body option \<Rightarrow> answer" where
  "chat w s req =
     (let msg = or_js (field message req) (Str []);
          l = or_js (field lang' req) (Str (js ''en''))
      in if \<not> truthy msg then \<lparr>reply = rejection, calls = []\<rparr>
         else
           (case retrieveContext w s msg of
              (Inl err, cs) \<Rightarrow> \<lparr>reply = js ''Error '' @ err, calls = cs\<rparr>
            | (Inr ctx, cs) \<Rightarrow>
                (let sys = system_prompt l ctx in
                 case chat_completion w sys msg of
                   Inl err \<Rightarrow> \<lparr>reply = js ''Error '' @ err, calls = cs @ [ChatCompletion sys msg]\<rparr>
                 | Inr content \<Rightarrow>
                     \<lparr>reply = (case content of
                                 None \<Rightarrow> js ''(no reply)''
                               | Some c \<Rightarrow> if c \<noteq> [] then c else js ''(no reply)''),
                      calls = cs @ [ChatCompletion sys msg]\<rparr>)))"

section \<open>Notions used in the statements\<close>

text \<open>
  The number of chunks in which the tokenizer finds the term \<open>t\<close>.
\<close>

definition df_count :: "entry list \<Rightarrow> jsstring \<Rightarrow> nat" where
  "df_count ds t = length (filter (\<lambda>d. t \<in> set (tokenize (chunk d))) ds)"

text \<open>
  Two lists of chunks that agree up to the vectors; the states of a crawl before the
  index is built (the chunk list is an initial part of the one being built, the tables
  are untouched) and while the vectors are assigned (chunks and tables stay as they
  are); the state in which \<open>crawl\<close> starts to build.
\<close>

definition unvec :: "entry list \<Rightarrow> entry list" where
  "unvec kb = map (\<lambda>d. d\<lparr>vec := None\<rparr>) kb"

definition growing :: "state \<Rightarrow> state \<Rightarrow> bool" where
  "growing s s' \<longleftrightarrow>
     VOCAB_IDF s = VOCAB_IDF s' \<and> CHUNK_TF s = CHUNK_TF s' \<and> (\<exists>n. KB s = take n (KB s'))"

definition embedding :: "state \<Rightarrow> state \<Rightarrow> bool" where
  "embedding s s' \<longleftrightarrow>
     VOCAB_IDF s = VOCAB_IDF s' \<and> CHUNK_TF s = CHUNK_TF s' \<and> unvec (KB s) = unvec (KB s')"

definition cleared :: "state \<Rightarrow> state" where
  "cleared s0 = s0\<lparr>KB := [], VOCAB_IDF := [], CHUNK_TF := []\<rparr>"

text \<open>The state in which the server starts: the three declarations at the top of the file.\<close>

definition initial :: state where
  "initial = \<lparr>KB = [], VOCAB_IDF = [], CHUNK_TF = []\<rparr>"


text \<open>
  A state before the index is built, seen from the state \<open>fin\<close> the crawl leaves: no
  tables yet, and an initial part of the chunks, none with a vector. An embedding
  service that answers every batch with as many vectors as it is sent texts.
\<close>

definition before_index :: "state \<Rightarrow> state \<Rightarrow> bool" where
  "before_index s fin \<longleftrightarrow>
     VOCAB_IDF s = [] \<and> CHUNK_TF s = [] \<and> (\<exists>n. KB s = take n (unvec (KB fin)))"

definition answers_all :: "world \<Rightarrow> bool" where
  "answers_all w \<longleftrightarrow> (\<forall>texts. \<exists>data. embed_batch w texts = Some data \<and> length data = length texts)"

declare embed_loop.simps [simp del]

section \<open>A scenario\<close>

text \<open>
  Two pages of the site answer, the site map does not: the page \<open>/services\<close> with the
  text \<open>We produce commercial video content\<close> and the page \<open>/contact\<close> with the text
  \<open>Call us at 555-0100 today\<close>, each followed by a row of dots that brings the document
  above the 180 characters a page must have. The embedding service places the first
  text on one axis and every other text on the other; the query is on the first axis.
\<close>

definition dot :: jschar where "dot = 0x2E"

definition doc_services :: jsstring where
  "doc_services = js ''BODY:'' @ [nl] @ js ''We produce commercial video content'' @ replicate 150 dot"

definition doc_contact :: jsstring where
  "doc_contact = js ''BODY:'' @ [nl] @ js ''Call us at 555-0100 today'' @ replicate 170 dot"

definition scenario_world :: world where
  "scenario_world = \<lparr>
     sitemap = None,
     pathname = (\<lambda>u. None),
     fetchPageStrong = (\<lambda>u. if u = SITE @ js ''/services'' then Some doc_services
                            else if u = SITE @ js ''/contact'' then Some doc_contact else None),
     embed_batch = (\<lambda>texts. Some (map (\<lambda>t. if t = doc_services then [1, 0] else [0, 1]) texts)),
     embed_query = (\<lambda>q. Inr [1, 0]),
     chat_completion = (\<lambda>sys m. Inr (Some (js ''We produce video.''))),
     String_other = (\<lambda>v. js ''[object Object]'')\<rparr>"

definition chunk_A :: entry where
  "chunk_A = \<lparr>id' = 0, url = SITE @ js ''/services'', lang = js ''en'', chunk = doc_services, vec = Some [1, 0]\<rparr>"

definition chunk_B :: entry where
  "chunk_B = \<lparr>id' = 1, url = SITE @ js ''/contact'', lang = js ''en'', chunk = doc_contact, vec = Some [0, 1]\<rparr>"

text \<open>The states of the scenario after the first and after the second page.\<close>

definition s_A :: "state \<Rightarrow> state" where
  "s_A s0 = (cleared s0)\<lparr>KB := [chunk_A\<lparr>vec := None\<rparr>]\<rparr>"

definition s_AB :: "state \<Rightarrow> state" where
  "s_AB s0 = (cleared s0)\<lparr>KB := [chunk_A\<lparr>vec := None\<rparr>, chunk_B\<lparr>vec := None\<rparr>]\<rparr>"

section \<open>Two further inputs\<close>

text \<open>
  A site map that lists the page \<open>/films\<close>.
\<close>

definition films_world :: world where
  "films_world = \<lparr>
     sitemap = Some [SITE @ js ''/films''],
     pathname = (\<lambda>u. if u = SITE @ js ''/films'' then Some (js ''/films'') else None),
     fetchPageStrong = (\<lambda>u. None),
     embed_batch = (\<lambda>texts. Some (map (\<lambda>t. [1]) texts)),
     embed_query = (\<lambda>q. Inr [1]),
     chat_completion = (\<lambda>sys m. Inr None),
     String_other = (\<lambda>v. js ''[object Object]'')\<rparr>"

text \<open>
  A site whose home page alone answers, with a document of 8500 characters: the label
  \<open>BODY:\<close>, a line break and 8494 dots. The embedding service gives every text, and the
  query, the same vector.
\<close>

definition long_doc :: jsstring where
  "long_doc = js ''BODY:'' @ [nl] @ replicate 8494 dot"

definition long_world :: world where
  "long_world = \<lparr>
     sitemap = None,
     pathname = (\<lambda>u. None),
     fetchPageStrong = (\<lambda>u. if u = SITE then Some long_doc else None),
     embed_batch = (\<lambda>texts. Some (map (\<lambda>t. [1]) texts)),
     embed_query = (\<lambda>q. Inr [1]),
     chat_completion = (\<lambda>sys m. Inr None),
     String_other = (\<lambda>v. js ''[object Object]'')\<rparr>"

definition long_entry :: "nat \<Rightarrow> jsstring \<Rightarrow> entry" where
  "long_entry k text = \<lparr>id' = k, url = SITE, lang = js ''en'', chunk = text, vec = Some [1]\<rparr>"

definition long_KB :: "entry list" where
  "long_KB =
     long_entry 0 (js ''BODY:'' @ [nl] @ replicate 794 dot)
       # map (\<lambda>k. long_entry k (replicate 800 dot)) [1, 2, 3, 4, 5, 6, 7, 8, 9]
       @ [long_entry 10 (replicate 500 dot)]"

section \<open>Properties of the chunker\<close>

lemma ceil_div_step:
  fixes L i n :: nat
  assumes "0 < n" "i < L"
  shows "(L - i + n - 1) div n = Suc ((L - (i + n) + n - 1) div n)"
proof (cases "i + n \<le> L")
  case True
  then obtain d where d: "L = i + n + d"
    using le_Suc_ex by blast
  have "L - i + n - 1 = (d + n - 1) + n" "L - (i + n) + n - 1 = d + n - 1"
    using assms(1) by (simp_all add: d)
  then show ?thesis
    using assms(1) by (simp only: div_add_self2)
next
  case False
  then have a: "L - (i + n) = 0" by simp
  have "0 < L - i" "L - i < n"
    using assms False by simp_all
  then obtain e where e: "L - i = Suc e" "e < n"
    by (cases "L - i") simp_all
  have eq: "L - i + n - 1 = e + n" using e by simp
  have "(e + n) div n = 1" using e(2) assms(1) by simp
  then have "(L - i + n - 1) div n = 1"
    by (simp only: eq)
  moreover have "(L - (i + n) + n - 1) div n = 0"
    using a assms(1) by simp
  ultimately show ?thesis by simp
qed

lemma chunkText_loop_returns:
  assumes "0 < n"
  shows "chunkText_loop s n i out =
     Some (out @ map (\<lambda>k. slice s (i + k * n) (i + k * n + n))
                     [0..<(length s - i + n - 1) div n])"
proof (induction "length s - i" arbitrary: i out rule: less_induct)
  case less
  show ?case
  proof (cases "i < length s")
    case False
    then have "(length s - i + n - 1) div n = 0"
      using assms by simp
    with False show ?thesis
      by (subst chunkText_loop.simps) simp
  next
    case True
    let ?m = "(length s - (i + n) + n - 1) div n"
    have lt: "length s - (i + n) < length s - i"
      using True assms by simp
    have step: "(length s - i + n - 1) div n = Suc ?m"
      using ceil_div_step [OF assms True] .
    have shift: "map (\<lambda>k. slice s (i + k * n) (i + k * n + n)) [0..<Suc ?m] =
        slice s i (i + n) # map (\<lambda>k. slice s (i + n + k * n) (i + n + k * n + n)) [0..<?m]"
      by (simp add: upt_conv_Cons map_Suc_upt [symmetric] add.assoc add.left_commute
          del: upt_Suc)
    have "chunkText_loop s n i out =
        chunkText_loop s n (i + n) (out @ [slice s i (i + n)])"
      using True by (subst chunkText_loop.simps) simp
    also have "\<dots> = Some ((out @ [slice s i (i + n)]) @
        map (\<lambda>k. slice s (i + n + k * n) (i + n + k * n + n)) [0..<?m])"
      using less [OF lt] .
    finally show ?thesis
      by (simp only: step shift append_assoc append_Cons append_Nil)
  qed
qed

lemma concat_slices:
  "concat (map (\<lambda>k. slice s (k * n) (k * n + n)) [0..<m]) = take (m * n) s"
proof (induction m)
  case 0
  show ?case by simp
next
  case (Suc m)
  have "take (m * n) (take (m * n + n) s) = take (m * n) s"
    by (simp add: min_def)
  then have "take (m * n + n) s = take (m * n) s @ drop (m * n) (take (m * n + n) s)"
    using append_take_drop_id [of "m * n" "take (m * n + n) s"] by simp
  with Suc show ?case
    by (simp add: slice_def add.commute)
qed

lemma ceil_div_covers:
  fixes L n :: nat
  assumes "0 < n"
  shows "L \<le> ((L + n - 1) div n) * n"
proof -
  have "L + n - 1 < ((L + n - 1) div n) * n + n"
    using assms by (metis add.commute dividend_less_times_div mult.commute)
  then show ?thesis by simp
qed

lemma ceil_div_last:
  fixes L n k :: nat
  assumes "0 < n" "k < (L + n - 1) div n"
  shows "k * n < L"
proof -
  have "Suc k \<le> (L + n - 1) div n" using assms by simp
  then have "Suc k * n \<le> ((L + n - 1) div n) * n" by (rule mult_le_mono1)
  also have "\<dots> \<le> L + n - 1" by simp
  finally show ?thesis using assms by simp
qed

text \<open>
  Claim C3. For every string \<open>s\<close> and every positive size \<open>n\<close> the chunker returns; the
  chunks are the consecutive slices \<open>s.slice(k*n, k*n+n)\<close> of \<open>s\<close> in order (so they do
  not overlap), their concatenation is \<open>s\<close>, there are \<open>ceil(|s|/n)\<close> of them (none for
  the empty string), each has at most \<open>n\<close> characters and at least one, and every chunk
  but the last has exactly \<open>n\<close>. The result is a function of \<open>s\<close> and \<open>n\<close> alone.
\<close>

theorem chunkText_correct:
  assumes "0 < n"
  shows "\<exists>cs. chunkText s n = Some cs
    \<and> concat cs = s
    \<and> length cs = (length s + n - 1) div n
    \<and> (\<forall>k < length cs. cs ! k = slice s (k * n) (k * n + n))
    \<and> (\<forall>k < length cs. 0 < length (cs ! k) \<and> length (cs ! k) \<le> n)
    \<and> (\<forall>k. Suc k < length cs \<longrightarrow> length (cs ! k) = n)"
proof -
  let ?m = "(length s + n - 1) div n"
  let ?cs = "map (\<lambda>k. slice s (k * n) (k * n + n)) [0..<?m]"
  have ret: "chunkText s n = Some ?cs"
    using chunkText_loop_returns [OF assms, of s 0 "[]"] by (simp add: chunkText_def)
  have cat: "concat ?cs = s"
    using ceil_div_covers [OF assms, of "length s"] by (simp add: concat_slices)
  have nth: "\<forall>k < length ?cs. ?cs ! k = slice s (k * n) (k * n + n)"
    by simp
  have len: "\<forall>k < length ?cs. 0 < length (?cs ! k) \<and> length (?cs ! k) \<le> n"
  proof (intro allI impI)
    fix k assume "k < length ?cs"
    then have "k < ?m" by simp
    then have "k * n < length s" using ceil_div_last [OF assms] by blast
    then show "0 < length (?cs ! k) \<and> length (?cs ! k) \<le> n"
      using \<open>k < ?m\<close> assms by (auto simp: slice_def min_def)
  qed
  have full: "\<forall>k. Suc k < length ?cs \<longrightarrow> length (?cs ! k) = n"
  proof (intro allI impI)
    fix k assume "Suc k < length ?cs"
    then have "Suc k < ?m" by simp
    then have "Suc k * n < length s" using ceil_div_last [OF assms] by blast
    then show "length (?cs ! k) = n"
      using \<open>Suc k < ?m\<close> by (simp add: slice_def)
  qed
  show ?thesis
    using ret cat nth len full by (intro exI [of _ ?cs]) simp
qed

theorem chunkText_correct_witness:
  "chunkText (js ''abcdefg'') 3 = Some [js ''abc'', js ''def'', js ''g'']
   \<and> chunkText ([] :: jsstring) 3 = Some []"
proof -
  have "\<exists>cs. chunkText (js ''abcdefg'') 3 = Some cs \<and> concat cs = js ''abcdefg''
      \<and> length cs = 3 \<and> cs ! 0 = js ''abc'' \<and> cs ! 1 = js ''def'' \<and> cs ! 2 = js ''g''"
    using chunkText_correct [of 3 "js ''abcdefg''"]
    by (auto simp: js_def slice_def)
  then have a: "chunkText (js ''abcdefg'') 3 = Some [js ''abc'', js ''def'', js ''g'']"
    by (auto simp: length_Suc_conv numeral_3_eq_3)
  have b: "chunkText ([] :: jsstring) 3 = Some []"
    using chunkText_correct [of 3 "[] :: jsstring"] by auto
  show ?thesis using a b by simp
qed

section \<open>Properties of the index and of a crawl\<close>

subsection \<open>Sets and maps in insertion order\<close>

lemma set_fold_set_add: "set (fold set_add a acc) = set acc \<union> set a"
  by (induction a arbitrary: acc) (auto simp: set_add_def)

lemma distinct_fold_set_add: "distinct acc \<Longrightarrow> distinct (fold set_add a acc)"
  by (induction a arbitrary: acc) (auto simp: set_add_def)

lemma set_unique: "set (unique a) = set a"
  by (simp add: unique_def set_fold_set_add)

lemma distinct_unique: "distinct (unique a)"
  by (simp add: unique_def distinct_fold_set_add)

lemma map_of_fold_update:
  "map_of (fold (\<lambda>t m. AList.update t (g t) m) ts m0) t =
     (if t \<in> set ts then Some (g t) else map_of m0 t)"
  by (induction ts arbitrary: m0) (auto simp: update_conv')

lemma distinct_fold_update:
  "distinct (map fst m0) \<Longrightarrow> distinct (map fst (fold (\<lambda>t m. AList.update t (g t m) m) ts m0))"
  by (induction ts arbitrary: m0) (auto simp: distinct_update)

lemma termCount_pos: "1 \<le> termCount t text"
  by (simp add: termCount_def Let_def)

lemma map_of_term_freqs:
  "map_of (term_freqs text terms) t = (if t \<in> set terms then Some (termCount t text) else None)"
  by (simp add: term_freqs_def map_of_fold_update)

lemma map_of_count_docs:
  "distinct terms \<Longrightarrow>
   map_of (count_docs terms df) t = (if t \<in> set terms then Some (get_or_0 df t + 1) else map_of df t)"
  unfolding count_docs_def
proof (induction terms arbitrary: df)
  case Nil
  show ?case by simp
next
  case (Cons x xs)
  then have "x \<notin> set xs" "distinct xs" by simp_all
  with Cons.IH [of "AList.update x (get_or_0 df x + 1) df"] show ?case
    by (auto simp: update_conv' get_or_0_def)
qed

lemma distinct_count_docs: "distinct (map fst df) \<Longrightarrow> distinct (map fst (count_docs terms df))"
  unfolding count_docs_def by (rule distinct_fold_update)


subsection \<open>The sparse index\<close>

lemma index_loop_df:
  "map_of (snd (index_loop ds ctf df)) t =
     (if df_count ds t = 0 then map_of df t else Some (get_or_0 df t + df_count ds t))"
proof (induction ds arbitrary: ctf df)
  case Nil
  show ?case by (simp add: df_count_def)
next
  case (Cons d ds)
  let ?terms = "unique (tokenize (chunk d))"
  have m: "map_of (count_docs ?terms df) t =
      (if t \<in> set (tokenize (chunk d)) then Some (get_or_0 df t + 1) else map_of df t)"
    by (simp add: map_of_count_docs distinct_unique set_unique)
  then have g: "get_or_0 (count_docs ?terms df) t =
      (if t \<in> set (tokenize (chunk d)) then get_or_0 df t + 1 else get_or_0 df t)"
    by (simp add: get_or_0_def)
  show ?case
    using Cons.IH [of "AList.update (id' d) (term_freqs (chunk d) ?terms) ctf" "count_docs ?terms df"]
    by (auto simp: Let_def m g df_count_def)
qed

lemma index_loop_df_distinct:
  "distinct (map fst df) \<Longrightarrow> distinct (map fst (snd (index_loop ds ctf df)))"
  by (induction ds arbitrary: ctf df) (auto simp: Let_def distinct_count_docs)

lemma index_loop_keys:
  "distinct (map fst ctf @ map id' ds) \<Longrightarrow>
   map fst (fst (index_loop ds ctf df)) = map fst ctf @ map id' ds"
proof (induction ds arbitrary: ctf df)
  case Nil
  show ?case by simp
next
  case (Cons d ds)
  let ?ctf = "AList.update (id' d) (term_freqs (chunk d) (unique (tokenize (chunk d)))) ctf"
  have k: "map fst ?ctf = map fst ctf @ [id' d]"
    using Cons.prems by (simp add: update_keys)
  with Cons.prems have "distinct (map fst ?ctf @ map id' ds)" by auto
  from Cons.IH [OF this] show ?case
    by (simp add: Let_def k)
qed

lemma index_loop_keeps:
  "k \<notin> id' ` set ds \<Longrightarrow> map_of (fst (index_loop ds ctf df)) k = map_of ctf k"
  by (induction ds arbitrary: ctf df) (auto simp: Let_def update_conv')

lemma index_loop_lookup:
  "distinct (map id' ds) \<Longrightarrow> d \<in> set ds \<Longrightarrow>
   map_of (fst (index_loop ds ctf df)) (id' d) = Some (term_freqs (chunk d) (unique (tokenize (chunk d))))"
proof (induction ds arbitrary: ctf df)
  case Nil
  then show ?case by simp
next
  case (Cons e ds)
  show ?case
  proof (cases "d \<in> set ds")
    case True
    with Cons show ?thesis by (simp add: Let_def)
  next
    case False
    with Cons.prems have "d = e" "id' e \<notin> id' ` set ds" by auto
    then show ?thesis
      by (simp add: Let_def index_loop_keeps update_conv')
  qed
qed

lemma map_of_fold_vocab:
  "distinct (map fst df) \<Longrightarrow>
   map_of (fold (\<lambda>(t, dfv) v. AList.update t (g dfv) v) df v0) t =
     (case map_of df t of None \<Rightarrow> map_of v0 t | Some n \<Rightarrow> Some (g n))"
proof (induction df arbitrary: v0)
  case Nil
  show ?case by simp
next
  case (Cons p df)
  obtain k n where p: "p = (k, n)" by (cases p)
  with Cons.prems have d: "distinct (map fst df)" "k \<notin> fst ` set df" by auto
  then have "map_of df k = None" by (simp add: map_of_eq_None_iff)
  with Cons.IH [OF d(1), of "AList.update k (g n) v0"] show ?case
    by (auto simp: p update_conv' split: option.splits)
qed

lemma sparse_index_KB: "KB (sparse_index s) = KB s"
  by (simp add: sparse_index_def Let_def split: prod.splits)

lemma sparse_index_idf:
  assumes "VOCAB_IDF s = []"
  shows "map_of (VOCAB_IDF (sparse_index s)) t =
     (if df_count (KB s) t = 0 then None
      else Some (idf_of (if length (KB s) = 0 then 1 else length (KB s)) (df_count (KB s) t)))"
proof -
  obtain ctf df where il: "index_loop (KB s) (CHUNK_TF s) [] = (ctf, df)"
    by (cases "index_loop (KB s) (CHUNK_TF s) []")
  have dd: "distinct (map fst df)"
    using index_loop_df_distinct [of "[]" "KB s" "CHUNK_TF s"] by (simp add: il)
  have m: "map_of df t = (if df_count (KB s) t = 0 then None else Some (df_count (KB s) t))"
    using index_loop_df [of "KB s" "CHUNK_TF s" "[]" t] by (simp add: il get_or_0_def)
  show ?thesis
    using assms by (simp add: sparse_index_def Let_def il map_of_fold_vocab [OF dd] m)
qed

lemma sparse_index_CHUNK_TF:
  "CHUNK_TF (sparse_index s) = fst (index_loop (KB s) (CHUNK_TF s) [])"
  by (cases "index_loop (KB s) (CHUNK_TF s) []") (simp add: sparse_index_def Let_def)

lemma sparse_index_tf_keys:
  assumes "CHUNK_TF s = []" "distinct (map id' (KB s))"
  shows "map fst (CHUNK_TF (sparse_index s)) = map id' (KB s)"
  using index_loop_keys [of "[]" "KB s" "[]"] assms
  by (simp add: sparse_index_CHUNK_TF)

lemma sparse_index_tf_lookup:
  assumes "distinct (map id' (KB s))" "d \<in> set (KB s)"
  shows "map_of (CHUNK_TF (sparse_index s)) (id' d) =
     Some (term_freqs (chunk d) (unique (tokenize (chunk d))))"
  using index_loop_lookup [OF assms, of "CHUNK_TF s" "[]"]
  by (simp add: sparse_index_CHUNK_TF)

subsection \<open>URL discovery\<close>

lemma addFallbacks_empty:
  "addFallbacks [] =
     [SITE, SITE @ js ''/home'', SITE @ js ''/services'', SITE @ js ''/about-us'', SITE @ js ''/contact'',
      SITE @ js ''/references'', SITE @ js ''/get-a-quote'', SITE @ js ''/consultation'']"
  by (simp add: addFallbacks_def fallbackPaths_def set_add_def stripTrailingSlashes_def
      SITE_def js_def slash_def)

lemma fallback_urls:
  assumes "sitemap w = None"
  shows "getSitemapUrls w =
     [SITE, SITE @ js ''/home'', SITE @ js ''/services'', SITE @ js ''/about-us'', SITE @ js ''/contact'',
      SITE @ js ''/references'', SITE @ js ''/get-a-quote'', SITE @ js ''/consultation'']"
  by (simp add: getSitemapUrls_def discover_def assms addFallbacks_empty slice_def MAX_PAGES_def)

subsection \<open>Crawling the pages\<close>

lemma chunkText_returns:
  "0 < n \<Longrightarrow> chunkText s n = Some (map (\<lambda>k. slice s (k * n) (k * n + n)) [0..<(length s + n - 1) div n])"
  using chunkText_loop_returns [of n s 0 "[]"] by (simp add: chunkText_def)

lemma push_pieces_eq:
  "push_pieces u cs idc kb =
     (kb @ map (\<lambda>(k, c). \<lparr>id' = k, url = u, lang = js ''en'', chunk = c, vec = None\<rparr>) (enumerate idc cs),
      idc + length cs)"
  by (induction cs arbitrary: idc kb) simp_all

lemma new_entries_ids:
  "map (id' \<circ> (\<lambda>(k, c). \<lparr>id' = k, url = u, lang = l, chunk = c, vec = v\<rparr>)) (enumerate n cs) =
     [n..<n + length cs]"
proof (induction cs arbitrary: n)
  case Nil
  show ?case by simp
next
  case (Cons c cs)
  have "[n..<Suc (n + length cs)] = n # [Suc n..<Suc (n + length cs)]"
    by (rule upt_conv_Cons) simp
  with Cons [of "Suc n"] show ?case by simp
qed

lemma crawl_pages_returns: "\<exists>s' tr. crawl_pages w us idc s = Some (s', tr)"
proof (induction us arbitrary: idc s)
  case Nil
  show ?case by simp
next
  case (Cons u us)
  show ?case
  proof (cases "fetchPageStrong w u")
    case None
    with Cons [of idc s] show ?thesis by auto
  next
    case (Some doc)
    show ?thesis
    proof (cases "doc = []")
      case True
      with Some Cons [of idc s] show ?thesis by auto
    next
      case False
      have "0 < CHUNK_SIZE" by (simp add: CHUNK_SIZE_def)
      from chunkText_returns [OF this, of doc]
      obtain pieces where c: "chunkText doc CHUNK_SIZE = Some pieces" by blast
      obtain kb idc' where p: "push_pieces u pieces idc (KB s) = (kb, idc')"
        by (cases "push_pieces u pieces idc (KB s)")
      from Cons [of idc' "s\<lparr>KB := kb\<rparr>"] Some False show ?thesis
        by (auto simp: c p)
    qed
  qed
qed

lemma crawl_pages_inv:
  assumes "crawl_pages w us idc s = Some (s', tr)"
    and "map id' (KB s) = [0..<idc]" and "\<forall>d\<in>set (KB s). vec d = None"
  shows "map id' (KB s') = [0..<length (KB s')] \<and> (\<forall>d\<in>set (KB s'). vec d = None)
    \<and> growing s s' \<and> (\<forall>x\<in>set tr. growing x s')"
  using assms
proof (induction us arbitrary: idc s s' tr)
  case Nil
  then have "s' = s" "tr = []" by simp_all
  with Nil show ?case
    using map_eq_imp_length_eq [of id' "KB s" "\<lambda>x. x" "[0..<idc]"]
    by (auto simp: growing_def intro: exI [of _ "length (KB s)"])
next
  case (Cons u us)
  have skip: ?case if r: "crawl_pages w us idc s = Some (s', tr')" and t: "tr = s # tr'" for tr'
  proof -
    from Cons.IH [OF r Cons.prems(2,3)] show ?thesis
      by (simp add: t)
  qed
  show ?case
  proof (cases "fetchPageStrong w u")
    case None
    with Cons.prems(1) obtain tr' where "crawl_pages w us idc s = Some (s', tr')" "tr = s # tr'"
      by auto
    then show ?thesis by (rule skip)
  next
    case (Some doc)
    show ?thesis
    proof (cases "doc = []")
      case True
      with Some Cons.prems(1) obtain tr' where "crawl_pages w us idc s = Some (s', tr')" "tr = s # tr'"
        by auto
      then show ?thesis by (rule skip)
    next
      case False
      from Some False Cons.prems(1) obtain pieces kb idc' tr'
        where c: "chunkText doc CHUNK_SIZE = Some pieces"
          and p: "push_pieces u pieces idc (KB s) = (kb, idc')"
          and r: "crawl_pages w us idc' (s\<lparr>KB := kb\<rparr>) = Some (s', tr')"
          and t: "tr = s # tr'"
        by (auto split: option.splits prod.splits)
      from p have kb: "kb = KB s @ map (\<lambda>(k, c). \<lparr>id' = k, url = u, lang = js ''en'', chunk = c, vec = None\<rparr>) (enumerate idc pieces)"
        and idc': "idc' = idc + length pieces"
        by (simp_all add: push_pieces_eq)
      have ids: "map id' kb = [0..<idc']"
        using Cons.prems(2) upt_add_eq_append [of 0 idc "length pieces"]
        by (simp add: kb idc' new_entries_ids)
      have vecs: "\<forall>d\<in>set kb. vec d = None"
        using Cons.prems(3) by (auto simp: kb)
      have IH: "map id' (KB s') = [0..<length (KB s')] \<and> (\<forall>d\<in>set (KB s'). vec d = None)
          \<and> growing (s\<lparr>KB := kb\<rparr>) s' \<and> (\<forall>x\<in>set tr'. growing x s')"
        using Cons.IH [OF r] ids vecs by simp
      then obtain n where n: "kb = take n (KB s')"
        by (auto simp: growing_def)
      have "KB s = take (length (KB s)) kb" by (simp add: kb)
      then have "KB s = take (min (length (KB s)) n) (KB s')"
        by (simp add: n min.commute)
      then have "growing s s'"
        using IH by (auto simp: growing_def)
      with IH show ?thesis by (simp add: t)
    qed
  qed
qed

subsection \<open>Embedding the chunks\<close>

lemma unvec_update: "i < length kb \<Longrightarrow> unvec (kb[i := (kb ! i)\<lparr>vec := v\<rparr>]) = unvec kb"
  by (simp add: unvec_def map_update list_update_same_conv)

lemma assign_vecs_unvec: "assign_vecs es i kb = (kb', ok) \<Longrightarrow> unvec kb' = unvec kb"
proof (induction es arbitrary: i kb)
  case Nil
  then show ?case by simp
next
  case (Cons e es)
  show ?case
  proof (cases "i < length kb")
    case True
    with Cons.prems have "assign_vecs es (i + 1) (kb[i := (kb ! i)\<lparr>vec := Some e\<rparr>]) = (kb', ok)"
      by simp
    from Cons.IH [OF this] True show ?thesis by (simp add: unvec_update)
  next
    case False
    with Cons.prems show ?thesis by simp
  qed
qed

lemma embedding_refl: "embedding s s"
  by (simp add: embedding_def)

lemma embed_loop_inv:
  "embed_loop w texts start s = (s', tr, ok) \<Longrightarrow> embedding s s' \<and> (\<forall>x\<in>set tr. embedding x s')"
proof (induction w texts start s arbitrary: s' tr ok rule: embed_loop.induct)
  case (1 w texts start s)
  show ?case
  proof (cases "start < length texts")
    case False
    with "1.prems" show ?thesis
      by (simp add: embed_loop.simps embedding_refl)
  next
    case True
    show ?thesis
    proof (cases "embed_batch w (slice texts start (start + BATCH_EMBED))")
      case None
      with True "1.prems" show ?thesis
        by (auto simp: embed_loop.simps embedding_refl)
    next
      case (Some data)
      obtain kb ok1 where a: "assign_vecs data start (KB s) = (kb, ok1)"
        by (cases "assign_vecs data start (KB s)")
      from assign_vecs_unvec [OF a] have step: "embedding s (s\<lparr>KB := kb\<rparr>)"
        by (simp add: embedding_def)
      show ?thesis
      proof (cases ok1)
        case False
        with True Some a "1.prems" step show ?thesis
          by (auto simp: embed_loop.simps)
      next
        case True
        obtain s'' tr'' ok'' where r: "embed_loop w texts (start + BATCH_EMBED) (s\<lparr>KB := kb\<rparr>) = (s'', tr'', ok'')"
          by (cases "embed_loop w texts (start + BATCH_EMBED) (s\<lparr>KB := kb\<rparr>)")
        with \<open>start < length texts\<close> Some a True "1.prems"
        have eq: "s' = s''" "tr = s # tr''" "ok = ok''"
          by (simp_all add: embed_loop.simps [of w texts start s])
        from "1.IH" [OF \<open>start < length texts\<close> Some a [symmetric] True r]
        have "embedding (s\<lparr>KB := kb\<rparr>) s''" "\<forall>x\<in>set tr''. embedding x s''"
          by simp_all
        with step show ?thesis
          by (auto simp: eq embedding_def)
      qed
    qed
  qed
qed

lemma assign_vecs_eq:
  "i + length es \<le> length kb \<Longrightarrow>
   assign_vecs es i kb =
     (take i kb @ map (\<lambda>(d, e). d\<lparr>vec := Some e\<rparr>) (zip (drop i kb) es) @ drop (i + length es) kb, True)"
proof (induction es arbitrary: i kb)
  case Nil
  then show ?case by simp
next
  case (Cons e es)
  then have i: "i < length kb" by simp
  let ?kb = "kb[i := (kb ! i)\<lparr>vec := Some e\<rparr>]"
  have "assign_vecs es (i + 1) ?kb =
      (take (i + 1) ?kb @ map (\<lambda>(d, e). d\<lparr>vec := Some e\<rparr>) (zip (drop (i + 1) ?kb) es)
         @ drop (i + 1 + length es) ?kb, True)"
    using Cons.prems by (intro Cons.IH) simp_all
  moreover have "take (i + 1) ?kb = take i kb @ [(kb ! i)\<lparr>vec := Some e\<rparr>]"
    using i by (simp add: take_Suc_conv_app_nth)
  moreover have "drop (i + 1) ?kb = drop (Suc i) kb" "drop (i + 1 + length es) ?kb = drop (i + length (e # es)) kb"
    by simp_all
  moreover have "drop i kb = kb ! i # drop (Suc i) kb"
    using i by (simp add: Cons_nth_drop_Suc)
  ultimately show ?case using i by simp
qed

lemma assign_vecs_done:
  assumes "i + length es \<le> length kb" "\<forall>d\<in>set (take i kb). vec d \<noteq> None"
    and "assign_vecs es i kb = (kb', ok)"
  shows "ok \<and> length kb' = length kb \<and> (\<forall>d\<in>set (take (i + length es) kb'). vec d \<noteq> None)"
proof -
  let ?new = "map (\<lambda>(d, e). d\<lparr>vec := Some e\<rparr>) (zip (drop i kb) es)"
  from assign_vecs_eq [OF assms(1)] assms(3)
  have kb': "kb' = take i kb @ ?new @ drop (i + length es) kb" and ok: ok
    by simp_all
  have ln: "length ?new = length es" using assms(1) by simp
  have li: "length (take i kb) = i" using assms(1) by simp
  have "take (i + length es) kb' = take i kb @ ?new"
    unfolding kb' using ln li by (simp add: take_append)
  moreover have "\<forall>d\<in>set ?new. vec d \<noteq> None" by auto
  moreover have "length kb' = length kb"
    unfolding kb' using assms(1) ln by simp
  ultimately show ?thesis using ok assms(2) by auto
qed

lemma take_min_length: "take (min a (length xs)) xs = take a xs"
  by (cases "a \<le> length xs") (simp_all add: min_def)

lemma embed_loop_done:
  "embed_loop w texts start s = (s', tr, ok) \<Longrightarrow> answers_all w \<Longrightarrow>
   length texts = length (KB s) \<Longrightarrow> \<forall>d\<in>set (take start (KB s)). vec d \<noteq> None \<Longrightarrow>
   ok \<and> (\<forall>d\<in>set (KB s'). vec d \<noteq> None)"
proof (induction w texts start s arbitrary: s' tr ok rule: embed_loop.induct)
  case (1 w texts start s)
  show ?case
  proof (cases "start < length texts")
    case False
    with "1.prems" show ?thesis
      by (simp add: embed_loop.simps)
  next
    case True
    let ?batch = "slice texts start (start + BATCH_EMBED)"
    from "1.prems"(2) obtain data where
      data: "embed_batch w ?batch = Some data" and "length data = length ?batch"
      unfolding answers_all_def by blast
    then have ld: "start + length data = min (start + BATCH_EMBED) (length (KB s))"
      using True "1.prems"(3) by (simp add: slice_def min_def)
    then have le: "start + length data \<le> length (KB s)" by simp
    obtain kb ok1 where a: "assign_vecs data start (KB s) = (kb, ok1)"
      by (cases "assign_vecs data start (KB s)")
    from assign_vecs_done [OF le "1.prems"(4) a]
    have ok1: ok1 and lk: "length kb = length (KB s)"
      and dn: "\<forall>d\<in>set (take (start + length data) kb). vec d \<noteq> None"
      by simp_all
    obtain s'' tr'' ok'' where
      r: "embed_loop w texts (start + BATCH_EMBED) (s\<lparr>KB := kb\<rparr>) = (s'', tr'', ok'')"
      by (cases "embed_loop w texts (start + BATCH_EMBED) (s\<lparr>KB := kb\<rparr>)")
    from True data a ok1 r "1.prems"(1) have eq: "s' = s''" "ok = ok''"
      by (simp_all add: embed_loop.simps [of w texts start s])
    have "take (start + BATCH_EMBED) kb = take (start + length data) kb"
      unfolding ld lk [symmetric] by (simp add: take_min_length)
    with dn have "\<forall>d\<in>set (take (start + BATCH_EMBED) (KB (s\<lparr>KB := kb\<rparr>))). vec d \<noteq> None"
      by simp
    moreover have "length texts = length (KB (s\<lparr>KB := kb\<rparr>))"
      using "1.prems"(3) lk by simp
    ultimately have "ok'' \<and> (\<forall>d\<in>set (KB s''). vec d \<noteq> None)"
      using "1.IH" [OF True data a [symmetric] ok1 r "1.prems"(2)] by blast
    then show ?thesis by (simp add: eq)
  qed
qed

lemma unvec_props:
  assumes "unvec kb = unvec kb'"
  shows "map id' kb = map id' kb'" "map chunk kb = map chunk kb'" "map url kb = map url kb'"
    "length kb = length kb'"
proof -
  have "map id' (unvec kb) = map id' kb" "map chunk (unvec kb) = map chunk kb"
    "map url (unvec kb) = map url kb" for kb
    by (simp_all add: unvec_def)
  with assms show "map id' kb = map id' kb'" "map chunk kb = map chunk kb'" "map url kb = map url kb'"
    by metis+
  from assms show "length kb = length kb'"
    unfolding unvec_def by (rule map_eq_imp_length_eq)
qed

subsection \<open>A run of crawl\<close>

lemma crawl_Some:
  "\<exists>s2 tr2 tr4 r. crawl_pages w (getSitemapUrls w) 0 (cleared s0) = Some (s2, tr2)
     \<and> embedAllChunks w (sparse_index s2) = (final r, tr4, completed r)
     \<and> observed r = cleared s0 # tr2 @ tr4
     \<and> crawl w s0 = Some r"
proof -
  obtain s2 tr2 where p: "crawl_pages w (getSitemapUrls w) 0 (cleared s0) = Some (s2, tr2)"
    using crawl_pages_returns by blast
  obtain s4 tr4 ok where e: "embedAllChunks w (sparse_index s2) = (s4, tr4, ok)"
    by (cases "embedAllChunks w (sparse_index s2)")
  let ?r = "\<lparr>final = s4, observed = cleared s0 # tr2 @ tr4, completed = ok\<rparr>"
  have "crawl w s0 = Some ?r"
    using p e by (simp add: crawl_def cleared_def Let_def)
  with p e show ?thesis
    by (intro exI [of _ s2] exI [of _ tr2] exI [of _ tr4] exI [of _ ?r]) simp
qed

lemma crawl_returns: "\<exists>r. crawl w s0 = Some r"
  using crawl_Some [of w s0] by blast

lemma crawl_parts:
  assumes "crawl w s0 = Some r"
  obtains s2 tr2 tr4 where
    "crawl_pages w (getSitemapUrls w) 0 (cleared s0) = Some (s2, tr2)"
    "embedAllChunks w (sparse_index s2) = (final r, tr4, completed r)"
    "observed r = cleared s0 # tr2 @ tr4"
  using crawl_Some [of w s0] assms by auto

text \<open>What the state that \<open>crawl\<close> leaves looks like.\<close>

lemma crawl_final:
  assumes "crawl w s0 = Some r"
  shows "map id' (KB (final r)) = [0..<length (KB (final r))]"
    and "map fst (CHUNK_TF (final r)) = map id' (KB (final r))"
    and "d \<in> set (KB (final r)) \<Longrightarrow>
          map_of (CHUNK_TF (final r)) (id' d) = Some (term_freqs (chunk d) (unique (tokenize (chunk d))))"
    and "map_of (VOCAB_IDF (final r)) t =
          (if df_count (KB (final r)) t = 0 then None
           else Some (idf_of (length (KB (final r))) (df_count (KB (final r)) t)))"
proof -
  from assms obtain s2 tr2 tr4 where
    p: "crawl_pages w (getSitemapUrls w) 0 (cleared s0) = Some (s2, tr2)" and
    e: "embedAllChunks w (sparse_index s2) = (final r, tr4, completed r)"
    by (rule crawl_parts)
  from crawl_pages_inv [OF p] have
    ids: "map id' (KB s2) = [0..<length (KB s2)]" and g: "growing (cleared s0) s2"
    by (simp_all add: cleared_def)
  from g have empty: "VOCAB_IDF s2 = []" "CHUNK_TF s2 = []"
    by (simp_all add: growing_def cleared_def)
  from ids have dist: "distinct (map id' (KB s2))" by simp
  from e have emb: "embedding (sparse_index s2) (final r)"
    using embed_loop_inv by (simp add: embedAllChunks_def)
  then have u: "unvec (KB s2) = unvec (KB (final r))"
    and v: "VOCAB_IDF (final r) = VOCAB_IDF (sparse_index s2)"
    and c: "CHUNK_TF (final r) = CHUNK_TF (sparse_index s2)"
    by (simp_all add: embedding_def sparse_index_KB)
  note same = unvec_props [OF u]
  show "map id' (KB (final r)) = [0..<length (KB (final r))]"
    using ids same by simp
  show "map fst (CHUNK_TF (final r)) = map id' (KB (final r))"
    using sparse_index_tf_keys [OF empty(2) dist] same by (simp add: c)
  have dfc: "df_count (KB (final r)) t = df_count (KB s2) t" for t
  proof -
    have h: "df_count kb t = length (filter (\<lambda>c. t \<in> set (tokenize c)) (map chunk kb))" for kb
      by (simp add: df_count_def filter_map comp_def)
    show ?thesis by (simp only: h same(2))
  qed
  show "map_of (VOCAB_IDF (final r)) t =
          (if df_count (KB (final r)) t = 0 then None
           else Some (idf_of (length (KB (final r))) (df_count (KB (final r)) t)))"
  proof (cases "df_count (KB s2) t = 0")
    case True
    then show ?thesis by (simp add: v sparse_index_idf [OF empty(1)] dfc)
  next
    case False
    then have "KB s2 \<noteq> []" by (auto simp: df_count_def)
    then have "length (KB s2) \<noteq> 0" "KB (final r) \<noteq> []"
      using same(4) by auto
    with False show ?thesis
      using same(4) by (simp add: v sparse_index_idf [OF empty(1)] dfc)
  qed
  show "map_of (CHUNK_TF (final r)) (id' d) = Some (term_freqs (chunk d) (unique (tokenize (chunk d))))"
    if d: "d \<in> set (KB (final r))"
  proof -
    from d have "d\<lparr>vec := None\<rparr> \<in> set (unvec (KB (final r)))"
      by (auto simp: unvec_def)
    then have "d\<lparr>vec := None\<rparr> \<in> set (unvec (KB s2))"
      by (simp only: u)
    then obtain d' where d': "d' \<in> set (KB s2)" "d'\<lparr>vec := None\<rparr> = d\<lparr>vec := None\<rparr>"
      by (auto simp: unvec_def)
    then have "id' d' = id' d" "chunk d' = chunk d"
      by (metis entry.select_convs(1) entry.surjective entry.update_convs(5),
          metis entry.select_convs(4) entry.surjective entry.update_convs(5))
    with sparse_index_tf_lookup [OF dist d'(1)] show ?thesis
      by (simp add: c)
  qed
qed

lemma observed_states:
  assumes "crawl w s0 = Some r" "s \<in> set (observed r)"
  shows "before_index s (final r) \<or> embedding s (final r)"
proof -
  from assms(1) obtain s2 tr2 tr4 where
    p: "crawl_pages w (getSitemapUrls w) 0 (cleared s0) = Some (s2, tr2)" and
    e: "embedAllChunks w (sparse_index s2) = (final r, tr4, completed r)" and
    o: "observed r = cleared s0 # tr2 @ tr4"
    by (rule crawl_parts)
  from crawl_pages_inv [OF p] have
    nv: "\<forall>d\<in>set (KB s2). vec d = None" and g0: "growing (cleared s0) s2"
    and g: "\<forall>x\<in>set tr2. growing x s2"
    by (simp_all add: cleared_def)
  from e have emb: "embedding (sparse_index s2) (final r)" "\<forall>x\<in>set tr4. embedding x (final r)"
    using embed_loop_inv [of w _ 0 "sparse_index s2" "final r" tr4 "completed r"]
    by (simp_all add: embedAllChunks_def)
  have "unvec (KB s2) = KB s2"
    using nv by (simp add: unvec_def map_idI)
  with emb(1) have kb: "unvec (KB (final r)) = KB s2"
    by (simp add: embedding_def sparse_index_KB)
  have b: "before_index x (final r)" if "growing x s2" for x
    using that g0 by (auto simp: before_index_def growing_def kb cleared_def)
  from assms(2) o consider "s = cleared s0" | "s \<in> set tr2" | "s \<in> set tr4"
    by auto
  then show ?thesis
    using b g0 g emb(2) by cases auto
qed

lemma complete_vectors:
  assumes "crawl w s0 = Some r" "answers_all w"
  shows "completed r \<and> (\<forall>d\<in>set (KB (final r)). vec d \<noteq> None)"
proof -
  from assms(1) obtain s2 tr2 tr4 where
    e: "embedAllChunks w (sparse_index s2) = (final r, tr4, completed r)"
    by (rule crawl_parts)
  then have "embed_loop w (map chunk (KB (sparse_index s2))) 0 (sparse_index s2) = (final r, tr4, completed r)"
    by (simp add: embedAllChunks_def)
  from embed_loop_done [OF this assms(2)] show ?thesis by simp
qed

section \<open>Properties of the similarity and of the lexical weight\<close>

lemma cosine_loop_sums:
  "length a \<le> length b \<Longrightarrow>
   cosine_loop a b (Num d) na (Num nb) =
     (Num (d + (\<Sum>(x, y)\<leftarrow>zip a b. x * y)), na + (\<Sum>x\<leftarrow>a. x * x),
      Num (nb + (\<Sum>y\<leftarrow>take (length a) b. y * y)))"
proof (induction a arbitrary: b d na nb)
  case Nil
  show ?case by simp
next
  case (Cons x a)
  then obtain y b' where b: "b = y # b'" by (cases b) auto
  with Cons.prems have "length a \<le> length b'" by simp
  from Cons.IH [OF this] show ?case
    by (simp add: b algebra_simps)
qed


lemma cosine_eq:
  assumes "length a = length b"
  shows "cosine a b =
     (if (\<Sum>x\<leftarrow>a. x * x) = 0 \<or> (\<Sum>y\<leftarrow>b. y * y) = 0 then Num 0
      else Num ((\<Sum>(x, y)\<leftarrow>zip a b. x * y) / (sqrt (\<Sum>x\<leftarrow>a. x * x) * sqrt (\<Sum>y\<leftarrow>b. y * y))))"
  using assms by (simp add: cosine_def cosine_loop_sums)







lemma contribution_zero: "contribution idf 0 = 0"
  by (simp add: contribution_def)

lemma contribution_mono:
  assumes "0 \<le> idf" "f \<le> g"
  shows "contribution idf f \<le> contribution idf g"
proof -
  have "(1.2 * real f) / (1 + 0.25 + real f) \<le> (1.2 * real g) / (1 + 0.25 + real g)"
    using assms(2) by (simp add: field_simps)
  then have "idf * ((1.2 * real f) / (1 + 0.25 + real f)) \<le> idf * ((1.2 * real g) / (1 + 0.25 + real g))"
    using assms(1) by (rule mult_left_mono)
  then show ?thesis by (simp add: contribution_def)
qed

lemma shifted_pos: "0 < c \<Longrightarrow> 0 < c + real f"
  by (rule add_pos_nonneg) simp_all

lemma contribution_step:
  "contribution idf (Suc f) - contribution idf f = idf * (1.5 / ((1.25 + real f) * (2.25 + real f)))"
proof -
  define x where "x = real f"
  have "0 < 5/4 + x" "0 < 9/4 + x"
    unfolding x_def by (rule shifted_pos, simp)+
  then have p: "5/4 + x \<noteq> 0" "9/4 + x \<noteq> 0" by simp_all
  have "idf * (6/5 * (x + 1)) / (9/4 + x) - idf * (6/5 * x) / (5/4 + x)
      = idf * ((3/2) / ((5/4 + x) * (9/4 + x)))"
    using p by (simp add: divide_simps) (simp add: algebra_simps)
  then show ?thesis
    by (simp add: contribution_def x_def add.commute)
qed

lemma contribution_saturates:
  assumes "0 < idf"
  shows "contribution idf (Suc (Suc f)) - contribution idf (Suc f)
       < contribution idf (Suc f) - contribution idf f"
proof -
  define x where "x = real f"
  have p: "0 < 5/4 + x" "0 < 9/4 + x" "0 < 13/4 + x"
    unfolding x_def by (rule shifted_pos, simp)+
  have "5/4 + x < 13/4 + x" by simp
  then have lt: "(9/4 + x) * (5/4 + x) < (9/4 + x) * (13/4 + x)"
    using p(2) by (rule mult_strict_left_mono)
  have pos: "0 < ((9/4 + x) * (13/4 + x)) * ((9/4 + x) * (5/4 + x))"
    using p by (intro mult_pos_pos)
  have "(3/2) / ((9/4 + x) * (13/4 + x)) < (3/2) / ((9/4 + x) * (5/4 + x))"
    using lt pos by (intro divide_strict_left_mono) simp_all
  then have "1.5 / ((1.25 + real (Suc f)) * (2.25 + real (Suc f)))
           < 1.5 / ((1.25 + real f) * (2.25 + real f))"
    by (simp add: x_def mult.commute add.commute add.left_commute)
  then show ?thesis
    using assms unfolding contribution_step by (simp only: mult_less_cancel_left_pos)
qed

lemma fold_add_sum: "fold (\<lambda>t acc. acc + g t) ts (a::real) = a + (\<Sum>t\<leftarrow>ts. g t)"
  by (induction ts arbitrary: a) simp_all

lemma sparse_score_sum:
  "sparse_score s terms d =
     (case map_of (CHUNK_TF s) (id' d) of
        None \<Rightarrow> 0
      | Some tf \<Rightarrow> (\<Sum>t\<leftarrow>terms. contribution (get_or_0 (VOCAB_IDF s) t) (get_or_0 tf t)))"
  by (simp add: sparse_score_def fold_add_sum split: option.splits)

lemma sparse_score_disjoint:
  assumes "crawl w s0 = Some r" "d \<in> set (KB (final r))"
    and "set terms \<inter> set (tokenize (chunk d)) = {}"
  shows "sparse_score (final r) terms d = 0"
proof -
  have "get_or_0 (term_freqs (chunk d) (unique (tokenize (chunk d)))) t = 0" if "t \<in> set terms" for t
    using that assms(3) by (auto simp: get_or_0_def map_of_term_freqs set_unique)
  then have "(\<Sum>t\<leftarrow>terms. contribution (get_or_0 (VOCAB_IDF (final r)) t)
      (get_or_0 (term_freqs (chunk d) (unique (tokenize (chunk d)))) t)) = 0"
    by (induction terms) (simp_all add: contribution_zero)
  then show ?thesis
    by (simp add: sparse_score_sum crawl_final(3) [OF assms(1,2)])
qed

section \<open>The scenario, evaluated\<close>

lemma chunkText_small:
  assumes "s \<noteq> []" "length s \<le> n"
  shows "chunkText s n = Some [s]"
proof -
  from assms have n: "0 < n" by (cases s) auto
  from assms(1) obtain x xs where s: "s = x # xs" by (cases s) auto
  have eq: "length s + n - 1 = length xs + n" and lt: "length xs < n"
    using assms(2) by (simp_all add: s)
  have "(length xs + n) div n = 1" using lt by simp
  then have "(length s + n - 1) div n = 1" by (simp only: eq)
  then show ?thesis
    using chunkText_returns [OF n, of s] assms(2) by (simp add: slice_def)
qed

lemma scenario_urls:
  "getSitemapUrls scenario_world =
     [SITE, SITE @ js ''/home'', SITE @ js ''/services'', SITE @ js ''/about-us'', SITE @ js ''/contact'',
      SITE @ js ''/references'', SITE @ js ''/get-a-quote'', SITE @ js ''/consultation'']"
  by (rule fallback_urls) (simp add: scenario_world_def)

lemma docs_differ: "doc_contact \<noteq> doc_services" "doc_services \<noteq> []" "doc_contact \<noteq> []"
  "length doc_services = 191" "length doc_contact = 201"
  by (simp_all add: doc_contact_def doc_services_def js_def)

lemma scenario_fetch:
  "fetchPageStrong scenario_world SITE = None"
  "fetchPageStrong scenario_world (SITE @ js ''/home'') = None"
  "fetchPageStrong scenario_world (SITE @ js ''/services'') = Some doc_services"
  "fetchPageStrong scenario_world (SITE @ js ''/about-us'') = None"
  "fetchPageStrong scenario_world (SITE @ js ''/contact'') = Some doc_contact"
  "fetchPageStrong scenario_world (SITE @ js ''/references'') = None"
  "fetchPageStrong scenario_world (SITE @ js ''/get-a-quote'') = None"
  "fetchPageStrong scenario_world (SITE @ js ''/consultation'') = None"
  by (simp_all add: scenario_world_def js_def)

lemma scenario_pages:
  "crawl_pages scenario_world (getSitemapUrls scenario_world) 0 (cleared s0) =
     Some (s_AB s0, [cleared s0, cleared s0, cleared s0, s_A s0, s_A s0, s_AB s0, s_AB s0, s_AB s0])"
  by (simp add: scenario_urls scenario_fetch docs_differ chunkText_small CHUNK_SIZE_def
      s_A_def s_AB_def chunk_A_def chunk_B_def cleared_def)

lemma scenario_embed:
  "embedAllChunks scenario_world (sparse_index (s_AB s0)) =
     ((sparse_index (s_AB s0))\<lparr>KB := [chunk_A, chunk_B]\<rparr>, [sparse_index (s_AB s0)], True)"
proof -
  have kb: "KB (sparse_index (s_AB s0)) = [chunk_A\<lparr>vec := None\<rparr>, chunk_B\<lparr>vec := None\<rparr>]"
    by (simp add: sparse_index_KB s_AB_def)
  have b: "embed_batch scenario_world [doc_services, doc_contact] = Some [[1, 0], [0, 1]]"
    by (simp add: scenario_world_def docs_differ)
  show ?thesis
    by (simp add: embedAllChunks_def kb embed_loop.simps BATCH_EMBED_def slice_def b
        chunk_A_def chunk_B_def)
qed

lemma scenario_run:
  "crawl scenario_world s0 =
     Some \<lparr>final = (sparse_index (s_AB s0))\<lparr>KB := [chunk_A, chunk_B]\<rparr>,
           observed = [cleared s0, cleared s0, cleared s0, cleared s0, s_A s0, s_A s0,
                       s_AB s0, s_AB s0, s_AB s0, sparse_index (s_AB s0)],
           completed = True\<rparr>"
  using scenario_pages [of s0] scenario_embed [of s0]
  by (simp add: crawl_def cleared_def Let_def)

lemma toLowerCase_simps:
  "toLowerCase [] = []"
  "toLowerCase (c # s) = toLowerCase_unit c @ toLowerCase s"
  "toLowerCase (a @ b) = toLowerCase a @ toLowerCase b"
  by (simp_all add: toLowerCase_def)

lemma toLowerCase_dots: "toLowerCase (replicate n dot) = replicate n dot"
  by (induction n) (simp_all add: toLowerCase_def toLowerCase_unit_def dot_def)

lemma split_tok_dots_sep: "split_tok cur True (replicate n dot) = [cur]"
  by (induction n) (simp_all add: isTokenChar_def dot_def)

lemma split_tok_dots: "0 < n \<Longrightarrow> split_tok cur False (replicate n dot) = [cur, []]"
  by (cases n) (simp_all add: split_tok_dots_sep, simp add: isTokenChar_def dot_def)

lemmas tokenize_eval = tokenize_def js_def nl_def toLowerCase_simps toLowerCase_dots
  toLowerCase_unit_def isTokenChar_def split_tok_dots split_tok_dots_sep

lemma tokenize_services:
  "tokenize doc_services = map js [''body'', ''we'', ''produce'', ''commercial'', ''video'', ''content'']"
  by (simp add: doc_services_def tokenize_eval)

lemma tokenize_contact:
  "tokenize doc_contact = map js [''body'', ''call'', ''us'', ''at'', ''555'', ''0100'', ''today'']"
  by (simp add: doc_contact_def tokenize_eval)

lemma wordAt_dots: "wordAt (replicate n dot) = False"
  by (cases n) (simp_all add: wordAt_def isWordChar_def dot_def)

lemma countMatches_dots:
  assumes "t \<noteq> []" "canon (hd t) \<noteq> canon dot"
  shows "countMatches t prev (replicate n dot) = 0"
proof (induction n arbitrary: prev)
  case 0
  show ?case by simp
next
  case (Suc n)
  from assms obtain c cs where t: "t = c # cs" by (cases t) auto
  have "\<not> matchesHere t prev (dot # replicate n dot)"
    using assms(2) by (auto simp: matchesHere_def t)
  with Suc show ?case by simp
qed

lemmas count_eval = termCount_def js_def nl_def matchesHere_def canon_def isWordChar_def
  wordBefore_def wordAt_def wordAt_dots

lemma count_video: "termCount (js ''video'') doc_services = 1"
proof -
  have "countMatches (js ''video'') prev (replicate n dot) = 0" for prev n
    by (rule countMatches_dots) (simp_all add: js_def canon_def dot_def)
  then have z: "countMatches [0x76, 0x69, 0x64, 0x65, 0x6F] prev (replicate n dot) = 0" for prev n
    by (simp add: js_def)
  show ?thesis
    by (simp add: doc_services_def count_eval z)
qed

section \<open>The claims about the index\<close>

lemma scenario_final:
  "crawl scenario_world initial = Some r \<Longrightarrow> KB (final r) = [chunk_A, chunk_B]"
  using scenario_run [of initial] by auto

lemma scenario_df:
  "df_count [chunk_A, chunk_B] (js ''video'') = 1"
  "df_count [chunk_A, chunk_B] (js ''body'') = 2"
  "df_count [chunk_A, chunk_B] (js ''films'') = 0"
  by (simp_all add: df_count_def chunk_A_def chunk_B_def tokenize_services tokenize_contact js_def)

text \<open>
  Claim C4. In the state that a crawl leaves with \<open>N \<ge> 1\<close> chunks, a term found by the
  tokenizer in \<open>df > 0\<close> of the chunks has the IDF value \<open>ln ((N + 1) / (df + 0.5))\<close>; for a
  term found in every chunk this is \<open>ln ((N + 1) / (N + 0.5))\<close>, which is positive; a
  term found in no chunk has no entry in the table.
\<close>

theorem idf_table:
  assumes "crawl w s0 = Some r" and "KB (final r) \<noteq> []"
  shows "(0 < df_count (KB (final r)) t \<longrightarrow>
            map_of (VOCAB_IDF (final r)) t =
              Some (ln ((real (length (KB (final r))) + 1) / (real (df_count (KB (final r)) t) + 0.5))))
    \<and> (df_count (KB (final r)) t = length (KB (final r)) \<longrightarrow>
            map_of (VOCAB_IDF (final r)) t =
              Some (ln ((real (length (KB (final r))) + 1) / (real (length (KB (final r))) + 0.5)))
          \<and> 0 < ln ((real (length (KB (final r))) + 1) / (real (length (KB (final r))) + 0.5)))
    \<and> (df_count (KB (final r)) t = 0 \<longrightarrow> map_of (VOCAB_IDF (final r)) t = None)"
proof -
  let ?N = "length (KB (final r))"
  have N: "0 < ?N" using assms(2) by simp
  have tab: "map_of (VOCAB_IDF (final r)) t =
      (if df_count (KB (final r)) t = 0 then None
       else Some (idf_of ?N (df_count (KB (final r)) t)))"
    by (rule crawl_final(4) [OF assms(1)])
  have "1 < (real ?N + 1) / (real ?N + 0.5)"
    by (simp add: field_simps)
  then have pos: "0 < ln ((real ?N + 1) / (real ?N + 0.5))"
    by simp
  show ?thesis
    using N pos by (auto simp: tab idf_of_def)
qed

theorem idf_table_witness:
  "\<exists>r. crawl scenario_world initial = Some r \<and> KB (final r) \<noteq> []
     \<and> map_of (VOCAB_IDF (final r)) (js ''video'') = Some (ln (3 / 1.5))
     \<and> map_of (VOCAB_IDF (final r)) (js ''body'') = Some (ln (3 / 2.5))
     \<and> 0 < ln (3 / 2.5 :: real)
     \<and> map_of (VOCAB_IDF (final r)) (js ''films'') = None"
proof -
  obtain r where r: "crawl scenario_world initial = Some r"
    using crawl_returns by blast
  have kb: "KB (final r) = [chunk_A, chunk_B]"
    using r by (rule scenario_final)
  have ne: "KB (final r) \<noteq> []" by (simp add: kb)
  show ?thesis
    using idf_table [OF r ne, of "js ''video''"] idf_table [OF r ne, of "js ''body''"]
      idf_table [OF r ne, of "js ''films''"] r
    by (simp add: kb scenario_df)
qed

text \<open>
  Claim C9. In the state that a crawl leaves, the chunk identifiers are \<open>0, 1, 2, \<dots>\<close> in
  the order of the chunk list; the term-frequency table has exactly one entry per chunk,
  keyed by the identifiers in the same order; and the entry found under the identifier
  of a chunk is the table built from that chunk's text, in which every term the
  tokenizer finds in the text has a frequency of at least 1.
\<close>

theorem generation_invariant:
  assumes "crawl w s0 = Some r"
  shows "map id' (KB (final r)) = [0..<length (KB (final r))]
    \<and> map fst (CHUNK_TF (final r)) = map id' (KB (final r))
    \<and> (\<forall>d\<in>set (KB (final r)).
          map_of (CHUNK_TF (final r)) (id' d) = Some (term_freqs (chunk d) (unique (tokenize (chunk d))))
          \<and> (\<forall>t\<in>set (tokenize (chunk d)).
                \<exists>f. map_of (term_freqs (chunk d) (unique (tokenize (chunk d)))) t = Some f \<and> 1 \<le> f))"
proof (intro conjI ballI)
  show "map id' (KB (final r)) = [0..<length (KB (final r))]"
    by (rule crawl_final(1) [OF assms])
  show "map fst (CHUNK_TF (final r)) = map id' (KB (final r))"
    by (rule crawl_final(2) [OF assms])
next
  fix d assume "d \<in> set (KB (final r))"
  then show "map_of (CHUNK_TF (final r)) (id' d) = Some (term_freqs (chunk d) (unique (tokenize (chunk d))))"
    by (rule crawl_final(3) [OF assms])
next
  fix d t assume "d \<in> set (KB (final r))" "t \<in> set (tokenize (chunk d))"
  then show "\<exists>f. map_of (term_freqs (chunk d) (unique (tokenize (chunk d)))) t = Some f \<and> 1 \<le> f"
    using termCount_pos [of t "chunk d"] by (simp add: map_of_term_freqs set_unique)
qed

theorem generation_invariant_witness:
  "\<exists>r. crawl scenario_world initial = Some r
     \<and> map id' (KB (final r)) = [0, 1]
     \<and> map fst (CHUNK_TF (final r)) = [0, 1]
     \<and> (\<exists>tf. map_of (CHUNK_TF (final r)) 0 = Some tf \<and> map_of tf (js ''video'') = Some 1)"
proof -
  obtain r where r: "crawl scenario_world initial = Some r"
    using crawl_returns by blast
  have kb: "KB (final r) = [chunk_A, chunk_B]"
    using r by (rule scenario_final)
  have v: "js ''video'' \<in> set (tokenize doc_services)"
    by (simp add: tokenize_services)
  have "map_of (term_freqs doc_services (unique (tokenize doc_services))) (js ''video'') = Some 1"
    using v by (simp add: map_of_term_freqs set_unique count_video)
  then show ?thesis
    using generation_invariant [OF r] r
    by (simp add: kb chunk_A_def chunk_B_def)
qed

text \<open>
  Claim C6. The lexical weight \<open>idf * (1.2 * tf) / (1 + 0.25 + tf)\<close> of a term is \<open>0\<close> for
  \<open>tf = 0\<close>; for \<open>idf > 0\<close> it does not decrease when \<open>tf\<close> grows, and the gain of one more
  occurrence gets strictly smaller with every occurrence. In the state that a crawl
  leaves, a chunk in whose text the tokenizer finds none of the query's terms has the
  sparse score \<open>0\<close>.
\<close>

theorem lexical_weight:
  "contribution idf 0 = 0
   \<and> (0 < idf \<longrightarrow> f \<le> g \<longrightarrow> contribution idf f \<le> contribution idf g)
   \<and> (0 < idf \<longrightarrow>
        contribution idf (f + 2) - contribution idf (f + 1)
          < contribution idf (f + 1) - contribution idf f)
   \<and> (crawl w s0 = Some r \<longrightarrow> d \<in> set (KB (final r)) \<longrightarrow>
        set terms \<inter> set (tokenize (chunk d)) = {} \<longrightarrow> sparse_score (final r) terms d = 0)"
  using contribution_zero [of idf] contribution_mono [of idf f g] contribution_saturates [of idf f]
    sparse_score_disjoint [of w s0 r d terms]
  by simp

theorem lexical_weight_witness:
  "contribution (ln 2) 0 = 0
   \<and> (0::real) < ln 2 \<and> contribution (ln 2) 1 \<le> contribution (ln 2) 3
   \<and> contribution (ln 2) 2 - contribution (ln 2) 1 < contribution (ln 2) 1 - contribution (ln 2) 0
   \<and> (\<exists>r. crawl scenario_world initial = Some r \<and> chunk_B \<in> set (KB (final r))
        \<and> sparse_score (final r) [js ''video'', js ''production''] chunk_B = 0)"
proof -
  obtain r where r: "crawl scenario_world initial = Some r"
    using crawl_returns by blast
  have kb: "KB (final r) = [chunk_A, chunk_B]"
    using r by (rule scenario_final)
  have dis: "set [js ''video'', js ''production''] \<inter> set (tokenize (chunk chunk_B)) = {}"
    by (simp add: chunk_B_def tokenize_contact js_def)
  have pos: "(0::real) < ln 2" by simp
  have mono: "contribution (ln 2) 1 \<le> contribution (ln 2) 3"
    using lexical_weight [of "ln 2" 1 3] pos by simp
  have "contribution (ln 2) (0 + 2) - contribution (ln 2) (0 + 1)
      < contribution (ln 2) (0 + 1) - contribution (ln 2) 0"
    using lexical_weight [of "ln 2" 0 0] pos by blast
  then have sat: "contribution (ln 2) 2 - contribution (ln 2) 1
      < contribution (ln 2) 1 - contribution (ln 2) 0"
    by (simp only: add_0)
  have zero: "contribution (ln 2) 0 = 0"
    using lexical_weight [of "ln 2" 0 0] by blast
  have "sparse_score (final r) [js ''video'', js ''production''] chunk_B = 0"
    using lexical_weight [of "ln 2" 0 0 scenario_world initial r chunk_B "[js ''video'', js ''production'']"]
      r dis by (simp add: kb)
  with r zero pos mono sat show ?thesis
    by (auto simp: kb)
qed


section \<open>The claims about retrieval\<close>




lemma score_of_formula:
  "score_of s qv terms d =
     nadd (nscale 0.7 (case vec d of None \<Rightarrow> Num 0 | Some v \<Rightarrow> cosine qv v))
          (Num (0.3 * tanh (case map_of (CHUNK_TF s) (id' d) of
                              None \<Rightarrow> 0
                            | Some tf \<Rightarrow> (\<Sum>t\<leftarrow>terms. contribution (get_or_0 (VOCAB_IDF s) t) (get_or_0 tf t)))))"
  by (simp add: score_of_def dense_score_def sparse_score_sum)









section \<open>The claim about the chat handler\<close>

lemma falsy_cases: "(\<not> truthy m) = (m \<in> {Undefined, Null, Bool False, Number 0, Str []})"
  by (cases m) auto

lemma retrieveContext_calls:
  "fst (retrieveContext w s q) = Inl err \<Longrightarrow> snd (retrieveContext w s q) = [EmbedQuery q]"
  by (auto simp: retrieveContext_def split: if_splits sum.splits)

text \<open>
  Claim C10. The handler answers \<open>Please type a message.\<close> without sending any request
  to the service exactly when the field \<open>message\<close> of the body is falsy: absent (also
  with the body itself absent), \<open>null\<close>, \<open>false\<close>, \<open>0\<close> or the empty string. Every
  other message, a string of blanks included, goes through retrieval and, unless the
  retrieval throws, through generation: the requests sent are those of the retrieval
  followed by the chat completion for the system prompt built from the context, with
  the message as the user's text.
\<close>

theorem chat_rejection:
  "((reply (chat w s req) = rejection \<and> calls (chat w s req) = [])
      \<longleftrightarrow> field message req \<in> {Undefined, Null, Bool False, Number 0, Str []})
   \<and> (field message req \<notin> {Undefined, Null, Bool False, Number 0, Str []} \<longrightarrow>
        (\<forall>ctx. fst (retrieveContext w s (field message req)) = Inr ctx \<longrightarrow>
           calls (chat w s req) = snd (retrieveContext w s (field message req))
              @ [ChatCompletion (system_prompt (or_js (field lang' req) (Str (js ''en''))) ctx) (field message req)])
      \<and> (\<forall>err. fst (retrieveContext w s (field message req)) = Inl err \<longrightarrow>
           reply (chat w s req) = js ''Error '' @ err
           \<and> calls (chat w s req) = [EmbedQuery (field message req)]))"
proof (cases "truthy (field message req)")
  case False
  then have "chat w s req = \<lparr>reply = rejection, calls = []\<rparr>"
    by (simp add: chat_def or_js_def Let_def)
  moreover from False have "field message req \<in> {Undefined, Null, Bool False, Number 0, Str []}"
    by (simp only: falsy_cases)
  ultimately show ?thesis by simp
next
  case True
  then have m: "or_js (field message req) (Str []) = field message req"
    by (simp add: or_js_def)
  from True have nf: "field message req \<notin> {Undefined, Null, Bool False, Number 0, Str []}"
    using falsy_cases [of "field message req"] by blast
  obtain res cs where rc: "retrieveContext w s (field message req) = (res, cs)"
    by (cases "retrieveContext w s (field message req)")
  show ?thesis
  proof (cases res)
    case (Inl err)
    with rc have "cs = [EmbedQuery (field message req)]"
      using retrieveContext_calls [of w s "field message req" err] by simp
    with True Inl rc nf show ?thesis
      by (simp add: chat_def m Let_def)
  next
    case (Inr ctx)
    with True rc nf show ?thesis
      by (auto simp: chat_def m Let_def split: sum.splits)
  qed
qed

theorem chat_rejection_witness:
  "chat scenario_world initial (Some \<lparr>message = Str [], lang' = Str (js ''fi'')\<rparr>)
      = \<lparr>reply = rejection, calls = []\<rparr>
   \<and> chat scenario_world initial None = \<lparr>reply = rejection, calls = []\<rparr>
   \<and> reply (chat scenario_world initial (Some \<lparr>message = Str (js ''   ''), lang' = Undefined\<rparr>))
        = js ''We produce video.''
   \<and> calls (chat scenario_world initial (Some \<lparr>message = Str (js ''   ''), lang' = Undefined\<rparr>))
        = [ChatCompletion (system_prompt (Str (js ''en'')) []) (Str (js ''   ''))]"
proof -
  let ?blank = "Some \<lparr>message = Str (js ''   ''), lang' = Undefined\<rparr>"
  have a: "chat scenario_world initial (Some \<lparr>message = Str [], lang' = Str (js ''fi'')\<rparr>)
      = \<lparr>reply = rejection, calls = []\<rparr>"
    using chat_rejection [of scenario_world initial "Some \<lparr>message = Str [], lang' = Str (js ''fi'')\<rparr>"]
    by (simp add: field_def)
  have b: "chat scenario_world initial None = \<lparr>reply = rejection, calls = []\<rparr>"
    using chat_rejection [of scenario_world initial None]
    by (simp add: field_def)
  have r: "retrieveContext scenario_world initial (Str (js ''   '')) = (Inr [], [])"
    by (simp add: retrieveContext_def initial_def)
  have t: "js ''   '' \<noteq> []" by (simp add: js_def)
  have c: "calls (chat scenario_world initial ?blank)
        = [ChatCompletion (system_prompt (Str (js ''en'')) []) (Str (js ''   ''))]"
    using chat_rejection [of scenario_world initial ?blank] t
    by (simp add: field_def r or_js_def)
  have d: "reply (chat scenario_world initial ?blank) = js ''We produce video.''"
    using t by (simp add: chat_def field_def r or_js_def Let_def, simp add: scenario_world_def, simp add: js_def)
  from a b c d show ?thesis by simp
qed

section \<open>The claim about the two versions\<close>

text \<open>
  Claim C8 does not hold of the two files. The previous version drops every page whose
  path begins with \<open>fi\<close> or \<open>sv\<close>, the current one only \<open>fi\<close>, \<open>sv\<close> and what lies below
  them: for a site map that lists \<open>/films\<close>, the current version crawls the page and the
  previous version does not. The two versions of \<open>cosine\<close> differ as well, where the
  second vector is shorter than the first.
\<close>

theorem versions_differ:
  "getSitemapUrls films_world = (SITE @ js ''/films'') # getSitemapUrls_prev films_world
   \<and> SITE @ js ''/films'' \<notin> set (getSitemapUrls_prev films_world)
   \<and> langExcluded_prev (js ''films'') \<and> \<not> langExcluded (js ''films'')
   \<and> cosine [1] [] = Num 0 \<and> cosine_prev [1] [] = NaN"
proof -
  note f = addFallbacks_empty
  have g: "addFallbacks [SITE @ js ''/films''] = (SITE @ js ''/films'') # addFallbacks []"
    by (simp add: addFallbacks_def fallbackPaths_def set_add_def stripTrailingSlashes_def
        SITE_def js_def slash_def)
  have ex: "langExcluded_prev (js ''films'')" "\<not> langExcluded (js ''films'')"
    by (simp_all add: langExcluded_prev_def langExcluded_def startsWith_def js_def)
  have u: "stripTrailingSlashes (trim (SITE @ js ''/films'')) = SITE @ js ''/films''"
    by (simp add: stripTrailingSlashes_def trim_def isWhiteSpace_def SITE_def js_def slash_def)
  have p: "stripLeadingSlashes (js ''/films'') = js ''films''"
    by (simp add: stripLeadingSlashes_def js_def slash_def)
  have st: "startsWith (SITE @ js ''/films'') SITE"
    by (simp add: startsWith_def)
  have pn: "pathname films_world (SITE @ js ''/films'') = Some (js ''/films'')"
    "sitemap films_world = Some [SITE @ js ''/films'']"
    by (simp_all add: films_world_def)
  have cur: "getSitemapUrls films_world = (SITE @ js ''/films'') # addFallbacks []"
    by (simp add: getSitemapUrls_def discover_def pn u p ex st set_add_def g Let_def)
       (simp add: f slice_def MAX_PAGES_def)
  have prev: "getSitemapUrls_prev films_world = addFallbacks []"
    by (simp add: getSitemapUrls_prev_def discover_def pn u p ex Let_def)
       (simp add: f slice_def MAX_PAGES_def)
  have notin: "SITE @ js ''/films'' \<notin> set (addFallbacks [])"
    by (simp add: f) (simp add: js_def)
  have c: "cosine [1] [] = Num 0" "cosine_prev [1] [] = NaN"
    by (simp_all add: cosine_def cosine_prev_def)
  from cur prev notin ex c show ?thesis by simp
qed

section \<open>The claim about the context budget\<close>

lemma long_chunks:
  "chunkText long_doc CHUNK_SIZE =
     Some ((js ''BODY:'' @ [nl] @ replicate 794 dot)
            # map (\<lambda>k. replicate 800 dot) [1::nat, 2, 3, 4, 5, 6, 7, 8, 9] @ [replicate 500 dot])"
proof -
  have l: "length long_doc = 8500" by (simp add: long_doc_def js_def)
  have n: "(length long_doc + CHUNK_SIZE - 1) div CHUNK_SIZE = 11"
    by (simp add: l CHUNK_SIZE_def)
  have u: "[0..<11] = [0, 1, 2, 3, 4, 5, 6, 7, 8, 9, 10]"
    by code_simp
  have "0 < CHUNK_SIZE" by (simp add: CHUNK_SIZE_def)
  from chunkText_returns [OF this, of long_doc] show ?thesis
    unfolding n u by (simp add: CHUNK_SIZE_def slice_def long_doc_def js_def)
qed

lemma long_doc_nonempty: "long_doc \<noteq> []"
  by (simp add: long_doc_def js_def)

lemma long_fetch:
  "fetchPageStrong long_world SITE = Some long_doc"
  "fetchPageStrong long_world (SITE @ js ''/home'') = None"
  "fetchPageStrong long_world (SITE @ js ''/services'') = None"
  "fetchPageStrong long_world (SITE @ js ''/about-us'') = None"
  "fetchPageStrong long_world (SITE @ js ''/contact'') = None"
  "fetchPageStrong long_world (SITE @ js ''/references'') = None"
  "fetchPageStrong long_world (SITE @ js ''/get-a-quote'') = None"
  "fetchPageStrong long_world (SITE @ js ''/consultation'') = None"
  by (simp_all add: long_world_def js_def)

lemma long_pages:
  "crawl_pages long_world (getSitemapUrls long_world) 0 (cleared s0) =
     Some ((cleared s0)\<lparr>KB := unvec long_KB\<rparr>,
           cleared s0 # replicate 7 ((cleared s0)\<lparr>KB := unvec long_KB\<rparr>))"
proof -
  have s: "sitemap long_world = None" by (simp add: long_world_def)
  have r: "replicate 7 x = [x, x, x, x, x, x, x]" for x :: state
    by (simp add: numeral_eq_Suc)
  show ?thesis
    by (simp add: fallback_urls [OF s] long_fetch long_doc_nonempty long_chunks r
        unvec_def long_KB_def long_entry_def cleared_def)
qed

lemma long_embed:
  assumes "KB s = unvec long_KB"
  shows "embedAllChunks long_world s = (s\<lparr>KB := long_KB\<rparr>, [s], True)"
proof -
  define texts where "texts = map chunk (unvec long_KB)"
  have len: "length texts = 11" by (simp add: texts_def unvec_def long_KB_def)
  have sl: "slice texts 0 BATCH_EMBED = texts"
    by (simp add: slice_def BATCH_EMBED_def len)
  have b: "embed_batch long_world texts = Some (map (\<lambda>t. [1]) texts)"
    by (simp add: long_world_def)
  have a: "assign_vecs (map (\<lambda>t. [1]) texts) 0 (KB s) = (long_KB, True)"
    unfolding assms texts_def
    by (subst assign_vecs_eq) (simp_all add: unvec_def long_KB_def long_entry_def)
  have stop: "embed_loop long_world texts BATCH_EMBED (s\<lparr>KB := long_KB\<rparr>)
      = (s\<lparr>KB := long_KB\<rparr>, [], True)"
    by (subst embed_loop.simps) (simp add: len BATCH_EMBED_def)
  have "embed_loop long_world texts 0 s = (s\<lparr>KB := long_KB\<rparr>, [s], True)"
    by (subst embed_loop.simps) (simp add: len sl b a stop)
  then show ?thesis
    by (simp add: embedAllChunks_def assms texts_def)
qed

lemma long_run:
  "\<exists>r. crawl long_world s0 = Some r \<and> completed r \<and> KB (final r) = long_KB"
proof -
  let ?s = "sparse_index ((cleared s0)\<lparr>KB := unvec long_KB\<rparr>)"
  have "KB ?s = unvec long_KB" by (simp add: sparse_index_KB)
  from long_embed [OF this] show ?thesis
    using long_pages [of s0]
    by (simp add: crawl_def Let_def cleared_def)
qed

lemma sort_key_const: "\<forall>x\<in>set xs. f x = c \<Longrightarrow> sort_key f xs = xs"
proof (induction xs)
  case Nil
  show ?case by simp
next
  case (Cons x xs)
  then have "sort_key f xs = xs" by simp
  with Cons.prems show ?case by (cases xs) simp_all
qed

lemma same_scores:
  "\<forall>d\<in>set ds. vec d = Some [1] \<Longrightarrow> score_loop s [1] [] ds = map (\<lambda>d. (d, 0.7)) ds"
proof (induction ds)
  case Nil
  show ?case by simp
next
  case (Cons d ds)
  then have "vec d = Some [1]" by simp
  then have "score_of s [1] [] d = Num 0.7"
    by (simp add: score_of_formula cosine_eq split: option.splits)
  with Cons show ?case by simp
qed

lemma long_ranked:
  assumes "KB s = long_KB"
  shows "map fst (ranked s [1] []) = long_KB"
proof -
  have v: "\<forall>d\<in>set long_KB. vec d = Some [1]"
    by (simp add: long_KB_def long_entry_def)
  have "sort_key (\<lambda>e. - snd e) (map (\<lambda>d. (d, 0.7::real)) long_KB) = map (\<lambda>d. (d, 0.7)) long_KB"
    by (rule sort_key_const [where c = "- 0.7"]) simp
  moreover have "length long_KB = 11" by (simp add: long_KB_def)
  ultimately show ?thesis
    by (simp add: ranked_def assms same_scores [OF v] slice_def TOP_K_def comp_def)
qed

lemma long_context: "length (build_ctx [] long_KB) = 9017"
  by (simp add: long_KB_def long_entry_def tagged_def MAX_CONTEXT_def SITE_def js_def)

text \<open>
  Claim C1 does not hold of the code. The test before a chunk is added compares the
  length of the context so far plus the length of the chunk's text with \<open>MAX_CONTEXT\<close>;
  the tag, the URL and the line breaks that are added with the chunk are not counted.
  For the site with one page of 8500 characters every chunk gets the same score, the
  eleven chunks are ranked in their order, all of them pass the test, and the context
  has 9017 characters.
\<close>

theorem context_exceeds_budget:
  "\<exists>r ctx. crawl long_world initial = Some r \<and> completed r \<and> KB (final r) = long_KB
     \<and> fst (retrieveContext long_world (final r) (Str (js ''?''))) = Inr ctx
     \<and> length ctx = 9017 \<and> MAX_CONTEXT < length ctx"
proof -
  obtain r where r: "crawl long_world initial = Some r" "completed r" "KB (final r) = long_KB"
    using long_run [of initial] by blast
  have t: "unique (tokenize (js ''?'')) = []"
    by (simp add: tokenize_eval unique_def)
  have q: "embed_query long_world (Str (js ''?'')) = Inr [1]"
    by (simp add: long_world_def)
  have ne: "long_KB \<noteq> []" by (simp add: long_KB_def)
  have "fst (retrieveContext long_world (final r) (Str (js ''?''))) = Inr (build_ctx [] long_KB)"
    using ne by (simp add: retrieveContext_def r(3) q context_of_def t long_ranked [OF r(3)])
  with r long_context show ?thesis
    by (simp add: MAX_CONTEXT_def)
qed

section \<open>The claim about re-indexing\<close>

lemma scenario_indexed:
  "VOCAB_IDF (sparse_index (s_AB s0)) \<noteq> []"
  "KB (sparse_index (s_AB s0)) = [chunk_A\<lparr>vec := None\<rparr>, chunk_B\<lparr>vec := None\<rparr>]"
proof -
  have v: "VOCAB_IDF (s_AB s0) = []" by (simp add: s_AB_def cleared_def)
  have "df_count (KB (s_AB s0)) (js ''video'') = 1"
    by (simp add: s_AB_def df_count_def chunk_A_def chunk_B_def tokenize_services tokenize_contact js_def)
  then have "map_of (VOCAB_IDF (sparse_index (s_AB s0))) (js ''video'') \<noteq> None"
    by (simp add: sparse_index_idf [OF v])
  then show "VOCAB_IDF (sparse_index (s_AB s0)) \<noteq> []" by auto
  show "KB (sparse_index (s_AB s0)) = [chunk_A\<lparr>vec := None\<rparr>, chunk_B\<lparr>vec := None\<rparr>]"
    by (simp add: sparse_index_KB s_AB_def)
qed

text \<open>
  Claim C2 does not hold of the code: \<open>crawl\<close> works on the live state. In the scenario,
  with a first crawl finished and a second one under way, a request handled while the
  second crawl waits for the page \<open>/about-us\<close> finds the one chunk of \<open>/services\<close> and
  empty tables, and a request handled while the crawl waits for the vectors finds the
  new tables and no vector at all; neither state is the one the first crawl left nor
  the one the second crawl leaves.
\<close>

theorem reindex_not_atomic:
  "\<exists>r0 r. crawl scenario_world initial = Some r0 \<and> crawl scenario_world (final r0) = Some r
     \<and> s_A (final r0) \<in> set (observed r)
     \<and> s_A (final r0) \<noteq> final r0 \<and> s_A (final r0) \<noteq> final r
     \<and> KB (s_A (final r0)) \<noteq> [] \<and> VOCAB_IDF (s_A (final r0)) = [] \<and> CHUNK_TF (s_A (final r0)) = []
     \<and> sparse_index (s_AB (final r0)) \<in> set (observed r)
     \<and> sparse_index (s_AB (final r0)) \<noteq> final r0 \<and> sparse_index (s_AB (final r0)) \<noteq> final r
     \<and> VOCAB_IDF (sparse_index (s_AB (final r0))) \<noteq> []
     \<and> map vec (KB (sparse_index (s_AB (final r0)))) = [None, None]"
proof -
  define r0 where "r0 = \<lparr>final = (sparse_index (s_AB initial))\<lparr>KB := [chunk_A, chunk_B]\<rparr>,
           observed = [cleared initial, cleared initial, cleared initial, cleared initial,
                       s_A initial, s_A initial, s_AB initial, s_AB initial, s_AB initial,
                       sparse_index (s_AB initial)],
           completed = True\<rparr>"
  define s1 where "s1 = final r0"
  define r where "r = \<lparr>final = (sparse_index (s_AB s1))\<lparr>KB := [chunk_A, chunk_B]\<rparr>,
           observed = [cleared s1, cleared s1, cleared s1, cleared s1,
                       s_A s1, s_A s1, s_AB s1, s_AB s1, s_AB s1, sparse_index (s_AB s1)],
           completed = True\<rparr>"
  have c0: "crawl scenario_world initial = Some r0"
    unfolding r0_def by (rule scenario_run)
  have c1: "crawl scenario_world s1 = Some r"
    unfolding r_def by (rule scenario_run)
  have f0: "VOCAB_IDF (final r0) \<noteq> []" "KB (final r0) = [chunk_A, chunk_B]"
    by (simp_all add: r0_def scenario_indexed)
  have f1: "VOCAB_IDF (final r) \<noteq> []" "KB (final r) = [chunk_A, chunk_B]"
    by (simp_all add: r_def scenario_indexed)
  have a: "KB (s_A s1) \<noteq> []" "VOCAB_IDF (s_A s1) = []" "CHUNK_TF (s_A s1) = []"
    by (simp_all add: s_A_def cleared_def)
  have i: "VOCAB_IDF (sparse_index (s_AB s1)) \<noteq> []"
    "KB (sparse_index (s_AB s1)) = [chunk_A\<lparr>vec := None\<rparr>, chunk_B\<lparr>vec := None\<rparr>]"
    by (rule scenario_indexed)+
  have v: "map vec (KB (sparse_index (s_AB s1))) = [None, None]"
    by (simp add: i)
  have m: "s_A s1 \<in> set (observed r)" "sparse_index (s_AB s1) \<in> set (observed r)"
    by (simp_all add: r_def)
  have d1: "s_A s1 \<noteq> final r0" "s_A s1 \<noteq> final r"
    using a(2) f0(1) f1(1) by auto
  have "map vec (KB (final r0)) \<noteq> [None, None]" "map vec (KB (final r)) \<noteq> [None, None]"
    by (simp_all add: f0 f1 chunk_A_def)
  with v have d2: "sparse_index (s_AB s1) \<noteq> final r0" "sparse_index (s_AB s1) \<noteq> final r"
    by auto
  show ?thesis
    using c0 c1 m d1 a d2 i(1) v unfolding s1_def
    by (intro exI [of _ r0] exI [of _ r] conjI) assumption+
qed

text \<open>
  Claim C2, amended. A re-index does not keep the previous generation: \<open>crawl\<close> empties
  the knowledge base and both tables in place before it is first suspended. Every state
  a request can find while the crawl is under way is a state of the rebuild: either the
  tables are empty and the chunk list is an initial part (possibly empty) of the new
  one, without vectors, or chunks and tables are those of the new generation and only
  vectors are missing. When the crawl has returned, and the embedding service has
  answered every batch with one vector per text, every chunk has its vector.
\<close>

theorem reindex_in_place:
  assumes "crawl w s0 = Some r"
  shows "observed r \<noteq> [] \<and> hd (observed r) = cleared s0
    \<and> KB (cleared s0) = [] \<and> VOCAB_IDF (cleared s0) = [] \<and> CHUNK_TF (cleared s0) = []
    \<and> (\<forall>s\<in>set (observed r). before_index s (final r) \<or> embedding s (final r))
    \<and> (answers_all w \<longrightarrow> completed r \<and> (\<forall>d\<in>set (KB (final r)). vec d \<noteq> None))"
proof -
  from assms obtain s2 tr2 tr4 where "observed r = cleared s0 # tr2 @ tr4"
    by (rule crawl_parts)
  then have "observed r \<noteq> [] \<and> hd (observed r) = cleared s0" by simp
  moreover have "KB (cleared s0) = [] \<and> VOCAB_IDF (cleared s0) = [] \<and> CHUNK_TF (cleared s0) = []"
    by (simp add: cleared_def)
  ultimately show ?thesis
    using observed_states [OF assms] complete_vectors [OF assms] by blast
qed

theorem reindex_in_place_witness:
  "\<exists>r. crawl scenario_world initial = Some r \<and> answers_all scenario_world
     \<and> hd (observed r) = cleared initial
     \<and> s_A initial \<in> set (observed r) \<and> before_index (s_A initial) (final r)
     \<and> sparse_index (s_AB initial) \<in> set (observed r)
     \<and> embedding (sparse_index (s_AB initial)) (final r)
     \<and> completed r \<and> map vec (KB (final r)) = [Some [1, 0], Some [0, 1]]"
proof -
  obtain r where r: "crawl scenario_world initial = Some r"
    using crawl_returns by blast
  have o: "observed r = [cleared initial, cleared initial, cleared initial, cleared initial,
      s_A initial, s_A initial, s_AB initial, s_AB initial, s_AB initial, sparse_index (s_AB initial)]"
    and f: "final r = (sparse_index (s_AB initial))\<lparr>KB := [chunk_A, chunk_B]\<rparr>"
    using r scenario_run [of initial] by auto
  have all: "answers_all scenario_world"
    by (simp add: answers_all_def scenario_world_def)
  note H = reindex_in_place [OF r]
  have m: "s_A initial \<in> set (observed r)" "sparse_index (s_AB initial) \<in> set (observed r)"
    by (simp_all add: o)
  have vo: "VOCAB_IDF (sparse_index (s_AB initial)) \<noteq> []"
    by (rule scenario_indexed)
  have "\<not> embedding (s_A initial) (final r)"
    using vo by (auto simp: embedding_def f s_A_def cleared_def)
  with H m(1) have b: "before_index (s_A initial) (final r)" by blast
  have "\<not> before_index (sparse_index (s_AB initial)) (final r)"
    using vo by (simp add: before_index_def)
  with H m(2) have e: "embedding (sparse_index (s_AB initial)) (final r)" by blast
  from H all have "completed r" "hd (observed r) = cleared initial" by blast+
  moreover have "map vec (KB (final r)) = [Some [1, 0], Some [0, 1]]"
    by (simp add: f chunk_A_def chunk_B_def)
  ultimately show ?thesis
    using r all m b e
    by (intro exI [of _ r] conjI) assumption+
qed

end
